theory Spec2Isabelle
  imports Complex_Main "HOL-Library.Word" "HOL-Library.AList"
begin

section \<open>Tile map (engine/TileMap.ts)\<close>

text \<open>
  Tile coordinates are JavaScript numbers that only ever hold integers; they are modelled
  as \<open>int\<close> (negative coordinates such as \<open>-1\<close> occur). A \<open>TilePosition\<close>
  \<open>{x, y}\<close> is the pair \<open>(x, y)\<close>.
\<close>

type_synonym TilePosition = "int \<times> int"

record TileDef =
  def_id :: int
  solid :: bool

text \<open>
  \<open>tiles\<close> is a \<open>Uint8Array\<close>; \<open>tileDefs\<close> is a \<open>Map\<close> from tile id to \<open>TileDef\<close>.
\<close>

record TileMap =
  cols :: int
  rows :: int
  tiles :: "8 word list"
  tileDefs :: "int \<rightharpoonup> TileDef"

text \<open>
  \<open>getTile\<close> returns \<open>-1\<close> outside the map. Inside the map it reads the typed array;
  a read past the end of a typed array yields \<open>undefined\<close>, which is \<open>None\<close> here.
\<close>

definition getTile :: "TileMap \<Rightarrow> int \<Rightarrow> int \<Rightarrow> int option" where
  "getTile m col row =
     (if col < 0 \<or> col \<ge> cols m \<or> row < 0 \<or> row \<ge> rows m then Some (- 1)
      else if nat (row * cols m + col) < length (tiles m)
           then Some (uint (tiles m ! nat (row * cols m + col)))
           else None)"

text \<open>\<open>def ? def.solid : true\<close>: a tile without a definition is solid.\<close>

definition isSolid :: "TileMap \<Rightarrow> int \<Rightarrow> int \<Rightarrow> bool" where
  "isSolid m col row =
     (case getTile m col row of
        None \<Rightarrow> True
      | Some i \<Rightarrow> (case tileDefs m i of None \<Rightarrow> True | Some d \<Rightarrow> solid d))"

definition isValidTile :: "TileMap \<Rightarrow> int \<Rightarrow> int \<Rightarrow> bool" where
  "isValidTile m col row \<longleftrightarrow> col \<ge> 0 \<and> col < cols m \<and> row \<ge> 0 \<and> row < rows m"

section \<open>A* search (engine/Pathfinding.ts)\<close>

text \<open>
  A \<open>PathNode\<close> carries its parent by reference. A node is only mutated while it is in
  the open set, and it becomes a parent only after it has left the open set, so the
  parent chain of a node never changes after it is linked: a value copy is the same.
\<close>

datatype PathNode =
  PathNode (node_x: int) (node_y: int) (node_g: int) (node_h: int) (node_f: int)
           (node_parent: "PathNode option")

definition heuristic :: "int \<Rightarrow> int \<Rightarrow> int \<Rightarrow> int \<Rightarrow> int" where
  "heuristic x1 y1 x2 y2 = \<bar>x1 - x2\<bar> + \<bar>y1 - y2\<bar>"

text \<open>
  \<open>reconstructPath\<close>: \<open>while (current !== null) { path.unshift(current); current = current.parent }\<close>.
\<close>

fun reconstructPath_loop :: "PathNode option \<Rightarrow> TilePosition list \<Rightarrow> TilePosition list" where
  "reconstructPath_loop None path = path"
| "reconstructPath_loop (Some (PathNode x y g h f p)) path = reconstructPath_loop p ((x, y) # path)"

definition reconstructPath :: "PathNode \<Rightarrow> TilePosition list" where
  "reconstructPath node = reconstructPath_loop (Some node) []"

text \<open>\<open>Array.prototype.findIndex\<close>, with \<open>None\<close> for \<open>-1\<close>.\<close>

fun findIndex :: "('a \<Rightarrow> bool) \<Rightarrow> 'a list \<Rightarrow> nat option" where
  "findIndex P [] = None"
| "findIndex P (a # as) =
     (if P a then Some 0 else (case findIndex P as of None \<Rightarrow> None | Some i \<Rightarrow> Some (Suc i)))"

text \<open>
  The local variables of \<open>findPath\<close>. The closed set holds the keys \<open>`${x},${y}`\<close>;
  the key of an integer pair determines the pair, so the set of pairs is the same set.
\<close>

record search_state =
  openSet :: "PathNode list"
  closedSet :: "TilePosition set"
  iterations :: int

text \<open>The four neighbours in the order of the source: up, down, left, right.\<close>

definition neighbors :: "int \<Rightarrow> int \<Rightarrow> TilePosition list" where
  "neighbors cx cy = [(cx, cy - 1), (cx, cy + 1), (cx - 1, cy), (cx + 1, cy)]"

text \<open>The body of \<open>for (const neighbor of neighbors)\<close>, on the open set.\<close>

definition visitNeighbor ::
  "TileMap \<Rightarrow> int \<Rightarrow> int \<Rightarrow> TilePosition set \<Rightarrow> PathNode \<Rightarrow> PathNode list \<Rightarrow> TilePosition
     \<Rightarrow> PathNode list" where
  "visitNeighbor m goalX goalY cl current opn nb =
     (if \<not> isValidTile m (fst nb) (snd nb) \<or> isSolid m (fst nb) (snd nb) \<or> nb \<in> cl
      then opn
      else
        (case findIndex (\<lambda>n. node_x n = fst nb \<and> node_y n = snd nb) opn of
           None \<Rightarrow>
             opn @ [PathNode (fst nb) (snd nb) (node_g current + 1)
                      (heuristic (fst nb) (snd nb) goalX goalY)
                      (node_g current + 1 + heuristic (fst nb) (snd nb) goalX goalY)
                      (Some current)]
         | Some i \<Rightarrow>
             (if node_g current + 1 < node_g (opn ! i)
              then opn[i := PathNode (node_x (opn ! i)) (node_y (opn ! i)) (node_g current + 1)
                             (node_h (opn ! i))
                             (node_g current + 1 + heuristic (fst nb) (snd nb) goalX goalY)
                             (Some current)]
              else opn)))"

text \<open>
  One pass of the main loop after the goal test failed: \<open>current\<close> is closed and its
  neighbours are visited. \<open>rest\<close> is the open set after \<open>shift()\<close>.
\<close>

definition expand :: "TileMap \<Rightarrow> int \<Rightarrow> int \<Rightarrow> PathNode \<Rightarrow> PathNode list \<Rightarrow> search_state \<Rightarrow> search_state" where
  "expand m goalX goalY current rest st =
     st\<lparr>closedSet := insert (node_x current, node_y current) (closedSet st),
        openSet := foldl (visitNeighbor m goalX goalY
                            (insert (node_x current, node_y current) (closedSet st)) current)
                     rest (neighbors (node_x current) (node_y current))\<rparr>"

text \<open>
  The main loop. \<open>openSet.sort((a, b) => a.f - b.f)\<close> is a stable sort by \<open>f\<close>
  (\<open>sort_key\<close> is a stable insertion sort), \<open>shift()\<close> takes the head.
  The result is the returned path together with the local state at the return.
\<close>

function astar_loop ::
  "TileMap \<Rightarrow> int \<Rightarrow> int \<Rightarrow> int \<Rightarrow> search_state \<Rightarrow> TilePosition list option \<times> search_state" where
  "astar_loop m goalX goalY maxIterations st =
     (if openSet st \<noteq> [] \<and> iterations st < maxIterations
      then
        (if node_x (hd (sort_key node_f (openSet st))) = goalX \<and>
            node_y (hd (sort_key node_f (openSet st))) = goalY
         then (Some (reconstructPath (hd (sort_key node_f (openSet st)))),
               st\<lparr>iterations := iterations st + 1, openSet := tl (sort_key node_f (openSet st))\<rparr>)
         else astar_loop m goalX goalY maxIterations
                (expand m goalX goalY (hd (sort_key node_f (openSet st)))
                   (tl (sort_key node_f (openSet st)))
                   (st\<lparr>iterations := iterations st + 1\<rparr>)))
      else (None, st))"
  by pat_completeness auto
termination
  by (relation "measure (\<lambda>(m, gx, gy, mx, st). nat (mx - iterations st))")
     (auto simp: expand_def)

text \<open>
  \<open>findPath\<close> with the state of the search at the return; the state is \<open>None\<close> when
  the function returns before the open set is created.
\<close>

definition findPath_run ::
  "int \<Rightarrow> int \<Rightarrow> int \<Rightarrow> int \<Rightarrow> TileMap \<Rightarrow> int \<Rightarrow> TilePosition list option \<times> search_state option" where
  "findPath_run startX startY goalX goalY m maxIterations =
     (if isSolid m goalX goalY then (None, None)
      else if startX = goalX \<and> startY = goalY then (Some [(startX, goalY)], None)
      else
        (case astar_loop m goalX goalY maxIterations
                \<lparr>openSet = [PathNode startX startY 0 (heuristic startX startY goalX goalY)
                               (0 + heuristic startX startY goalX goalY) None],
                 closedSet = {}, iterations = 0\<rparr>
         of (r, st) \<Rightarrow> (r, Some st)))"

definition findPath :: "int \<Rightarrow> int \<Rightarrow> int \<Rightarrow> int \<Rightarrow> TileMap \<Rightarrow> int \<Rightarrow> TilePosition list option" where
  "findPath startX startY goalX goalY m maxIterations =
     fst (findPath_run startX startY goalX goalY m maxIterations)"

declare astar_loop.simps [simp del]

subsection \<open>The parent chain and the shape of the loop\<close>

text \<open>The tiles on the parent chain of a node, from the root to the node.\<close>

fun chain :: "PathNode \<Rightarrow> TilePosition list" where
  "chain (PathNode x y g h f None) = [(x, y)]"
| "chain (PathNode x y g h f (Some p)) = chain p @ [(x, y)]"

lemma reconstructPath_loop_chain: "reconstructPath_loop (Some n) acc = chain n @ acc"
  by (induction n arbitrary: acc rule: chain.induct) simp_all

lemma reconstructPath_chain: "reconstructPath n = chain n"
  by (simp add: reconstructPath_def reconstructPath_loop_chain)

lemma chain_nonempty [simp]: "chain n \<noteq> []"
  by (induction n rule: chain.induct) simp_all

lemma chain_last: "last (chain n) = (node_x n, node_y n)"
  by (induction n rule: chain.induct) simp_all

lemma chain_child:
  "chain (PathNode x y g h f (Some p)) = chain p @ [(x, y)]"
  by simp

lemma visitNeighbor_rooted:
  assumes "\<forall>n \<in> set opn. hd (chain n) = s" and "hd (chain cur) = s"
  shows "\<forall>n \<in> set (visitNeighbor m gx gy cl cur opn nb). hd (chain n) = s"
proof
  fix n assume n: "n \<in> set (visitNeighbor m gx gy cl cur opn nb)"
  have new: "hd (chain (PathNode a b g h f (Some cur))) = s" for a b g h f
    using assms(2) by (simp add: hd_append)
  from n consider "n \<in> set opn" | a b g h f where "n = PathNode a b g h f (Some cur)"
    unfolding visitNeighbor_def
    by (auto split: if_splits option.splits dest!: set_update_subset_insert [THEN subsetD])
  then show "hd (chain n) = s"
    using assms(1) new by cases auto
qed

lemma foldl_visitNeighbor_rooted:
  assumes "\<forall>n \<in> set opn. hd (chain n) = s" and "hd (chain cur) = s"
  shows "\<forall>n \<in> set (foldl (visitNeighbor m gx gy cl cur) opn nbs). hd (chain n) = s"
  using assms
proof (induction nbs arbitrary: opn)
  case (Cons nb nbs)
  have "\<forall>n \<in> set (visitNeighbor m gx gy cl cur opn nb). hd (chain n) = s"
    using Cons.prems by (rule visitNeighbor_rooted)
  from Cons.IH [OF this Cons.prems(2)] show ?case by simp
qed simp

text \<open>The node taken from the open set in the next pass, and the state after the pass.\<close>

definition popped :: "search_state \<Rightarrow> PathNode" where
  "popped st = hd (sort_key node_f (openSet st))"

definition astar_step :: "TileMap \<Rightarrow> int \<Rightarrow> int \<Rightarrow> search_state \<Rightarrow> search_state" where
  "astar_step m gx gy st =
     expand m gx gy (popped st) (tl (sort_key node_f (openSet st)))
       (st\<lparr>iterations := iterations st + 1\<rparr>)"

definition running :: "int \<Rightarrow> search_state \<Rightarrow> bool" where
  "running mx st \<longleftrightarrow> openSet st \<noteq> [] \<and> iterations st < mx"

definition at_goal :: "int \<Rightarrow> int \<Rightarrow> PathNode \<Rightarrow> bool" where
  "at_goal gx gy n \<longleftrightarrow> node_x n = gx \<and> node_y n = gy"

lemma astar_loop_stop: "\<not> running mx st \<Longrightarrow> astar_loop m gx gy mx st = (None, st)"
  by (auto simp add: astar_loop.simps [of m gx gy mx st] running_def)

lemma astar_loop_goal:
  "running mx st \<Longrightarrow> at_goal gx gy (popped st) \<Longrightarrow>
     astar_loop m gx gy mx st =
       (Some (reconstructPath (popped st)),
        st\<lparr>iterations := iterations st + 1, openSet := tl (sort_key node_f (openSet st))\<rparr>)"
  by (auto simp add: astar_loop.simps [of m gx gy mx st] running_def at_goal_def popped_def)

lemma astar_loop_step:
  "running mx st \<Longrightarrow> \<not> at_goal gx gy (popped st) \<Longrightarrow>
     astar_loop m gx gy mx st = astar_loop m gx gy mx (astar_step m gx gy st)"
  by (auto simp add: astar_loop.simps [of m gx gy mx st] running_def at_goal_def popped_def
      astar_step_def)

lemma iterations_astar_step: "iterations (astar_step m gx gy st) = iterations st + 1"
  by (simp add: astar_step_def expand_def)

lemma astar_loop_induct [consumes 0, case_names stop goal step]:
  assumes "\<And>st. \<not> running mx st \<Longrightarrow> P st"
    and "\<And>st. running mx st \<Longrightarrow> at_goal gx gy (popped st) \<Longrightarrow> P st"
    and "\<And>st. running mx st \<Longrightarrow> \<not> at_goal gx gy (popped st) \<Longrightarrow>
           P (astar_step m gx gy st) \<Longrightarrow> P st"
  shows "P st"
proof (induction "nat (mx - iterations st)" arbitrary: st rule: less_induct)
  case less
  show ?case
  proof (cases "running mx st")
    case False
    then show ?thesis by (rule assms(1))
  next
    case True
    show ?thesis
    proof (cases "at_goal gx gy (popped st)")
      case True
      with \<open>running mx st\<close> show ?thesis by (rule assms(2))
    next
      case False
      have "nat (mx - iterations (astar_step m gx gy st)) < nat (mx - iterations st)"
        using \<open>running mx st\<close> by (simp add: iterations_astar_step running_def)
      then have "P (astar_step m gx gy st)" by (rule less)
      with \<open>running mx st\<close> False show ?thesis by (rule assms(3))
    qed
  qed
qed

lemma popped_in: "openSet st \<noteq> [] \<Longrightarrow> popped st \<in> set (openSet st)"
proof -
  assume "openSet st \<noteq> []"
  then have "sort_key node_f (openSet st) \<noteq> []"
    by (cases "openSet st") (simp_all add: sort_key_def)
  then have "hd (sort_key node_f (openSet st)) \<in> set (sort_key node_f (openSet st))"
    by (rule hd_in_set)
  then show ?thesis by (simp add: popped_def)
qed

lemma rest_subset: "set (tl (sort_key node_f (openSet st))) \<subseteq> set (openSet st)"
proof
  fix n assume "n \<in> set (tl (sort_key node_f (openSet st)))"
  then have "n \<in> set (sort_key node_f (openSet st))"
    by (cases "sort_key node_f (openSet st)") simp_all
  then show "n \<in> set (openSet st)" by simp
qed

lemma astar_loop_rooted_aux:
  "(\<forall>n \<in> set (openSet st). hd (chain n) = s) \<longrightarrow>
   astar_loop m gx gy mx st = (Some p, st') \<longrightarrow>
   p \<noteq> [] \<and> hd p = s \<and> last p = (gx, gy)"
proof (rule astar_loop_induct [where mx = mx and gx = gx and gy = gy and m = m and
      P = "\<lambda>st. (\<forall>n \<in> set (openSet st). hd (chain n) = s) \<longrightarrow>
            astar_loop m gx gy mx st = (Some p, st') \<longrightarrow>
            p \<noteq> [] \<and> hd p = s \<and> last p = (gx, gy)"])
  fix st assume "\<not> running mx st"
  then have "astar_loop m gx gy mx st = (None, st)" by (rule astar_loop_stop)
  then show "(\<forall>n \<in> set (openSet st). hd (chain n) = s) \<longrightarrow>
            astar_loop m gx gy mx st = (Some p, st') \<longrightarrow>
            p \<noteq> [] \<and> hd p = s \<and> last p = (gx, gy)" by simp
next
  fix st assume run: "running mx st" and g: "at_goal gx gy (popped st)"
  show "(\<forall>n \<in> set (openSet st). hd (chain n) = s) \<longrightarrow>
            astar_loop m gx gy mx st = (Some p, st') \<longrightarrow>
            p \<noteq> [] \<and> hd p = s \<and> last p = (gx, gy)"
  proof (intro impI)
    assume inv: "\<forall>n \<in> set (openSet st). hd (chain n) = s"
      and res: "astar_loop m gx gy mx st = (Some p, st')"
    from run have "popped st \<in> set (openSet st)" by (intro popped_in) (simp add: running_def)
    with inv have r: "hd (chain (popped st)) = s" by blast
    from res astar_loop_goal [OF run g, of m]
    have "p = chain (popped st)" by (simp add: reconstructPath_chain)
    with r g show "p \<noteq> [] \<and> hd p = s \<and> last p = (gx, gy)"
      by (simp add: chain_last at_goal_def)
  qed
next
  fix st assume run: "running mx st" and g: "\<not> at_goal gx gy (popped st)"
    and IH: "(\<forall>n \<in> set (openSet (astar_step m gx gy st)). hd (chain n) = s) \<longrightarrow>
            astar_loop m gx gy mx (astar_step m gx gy st) = (Some p, st') \<longrightarrow>
            p \<noteq> [] \<and> hd p = s \<and> last p = (gx, gy)"
  show "(\<forall>n \<in> set (openSet st). hd (chain n) = s) \<longrightarrow>
            astar_loop m gx gy mx st = (Some p, st') \<longrightarrow>
            p \<noteq> [] \<and> hd p = s \<and> last p = (gx, gy)"
  proof (intro impI)
    assume inv: "\<forall>n \<in> set (openSet st). hd (chain n) = s"
      and res: "astar_loop m gx gy mx st = (Some p, st')"
    from run have cur: "popped st \<in> set (openSet st)"
      by (intro popped_in) (simp add: running_def)
    have a: "\<forall>n \<in> set (tl (sort_key node_f (openSet st))). hd (chain n) = s"
      using rest_subset [of st] inv by blast
    have b: "hd (chain (popped st)) = s" using cur inv by blast
    have "openSet (astar_step m gx gy st) =
        foldl (visitNeighbor m gx gy (insert (node_x (popped st), node_y (popped st)) (closedSet st))
                 (popped st))
          (tl (sort_key node_f (openSet st))) (neighbors (node_x (popped st)) (node_y (popped st)))"
      by (simp add: astar_step_def expand_def)
    then have "\<forall>n \<in> set (openSet (astar_step m gx gy st)). hd (chain n) = s"
      using foldl_visitNeighbor_rooted [OF a b] by (simp only:)
    moreover have "astar_loop m gx gy mx (astar_step m gx gy st) = (Some p, st')"
      using res astar_loop_step [OF run g, of m] by simp
    ultimately show "p \<noteq> [] \<and> hd p = s \<and> last p = (gx, gy)" using IH by blast
  qed
qed

lemma astar_loop_rooted:
  assumes "\<forall>n \<in> set (openSet st). hd (chain n) = s"
    and "astar_loop m gx gy mx st = (Some p, st')"
  shows "p \<noteq> [] \<and> hd p = s \<and> last p = (gx, gy)"
  using assms astar_loop_rooted_aux by blast

lemma findPath_endpoints:
  assumes "findPath sx sy gx gy m mx = Some p"
  shows "p \<noteq> [] \<and> hd p = (sx, sy) \<and> last p = (gx, gy)"
proof (cases "isSolid m gx gy \<or> (sx = gx \<and> sy = gy)")
  case True
  with assms show ?thesis by (auto simp: findPath_def findPath_run_def split: if_splits)
next
  case False
  let ?st = "\<lparr>openSet = [PathNode sx sy 0 (heuristic sx sy gx gy)
                               (0 + heuristic sx sy gx gy) None],
                 closedSet = {}, iterations = 0\<rparr>"
  from False assms obtain st' where "astar_loop m gx gy mx ?st = (Some p, st')"
    by (auto simp: findPath_def findPath_run_def split: if_splits prod.splits)
  from astar_loop_rooted [OF _ this, of "(sx, sy)"] show ?thesis by simp
qed

subsection \<open>Cached paths\<close>

text \<open>
  \<open>CachedPath\<close>: the last computed path (\<open>null\<close> is \<open>None\<close>), the walking index and
  the target the path was computed for.
\<close>

record CachedPath =
  path :: "TilePosition list option"
  currentIndex :: nat
  targetX :: int
  targetY :: int

definition newCachedPath :: CachedPath where
  "newCachedPath = \<lparr>path = None, currentIndex = 0, targetX = - 1, targetY = - 1\<rparr>"

definition clear :: "CachedPath \<Rightarrow> CachedPath" where
  "clear c = c\<lparr>path := None, currentIndex := 0, targetX := - 1, targetY := - 1\<rparr>"

text \<open>
  The condition of the first \<open>if\<close> of \<open>getNextStep\<close>, and the state after it.
\<close>

definition mustRecalculate :: "CachedPath \<Rightarrow> int \<Rightarrow> int \<Rightarrow> bool \<Rightarrow> bool" where
  "mustRecalculate c tx ty forceRecalculate \<longleftrightarrow>
     forceRecalculate \<or> targetX c \<noteq> tx \<or> targetY c \<noteq> ty \<or>
     (case path c of None \<Rightarrow> True | Some p \<Rightarrow> currentIndex c \<ge> length p)"

definition recalculated ::
  "CachedPath \<Rightarrow> int \<Rightarrow> int \<Rightarrow> int \<Rightarrow> int \<Rightarrow> TileMap \<Rightarrow> bool \<Rightarrow> CachedPath" where
  "recalculated c cx cy tx ty m forceRecalculate =
     (if mustRecalculate c tx ty forceRecalculate
      then c\<lparr>path := findPath cx cy tx ty m 500, currentIndex := 0, targetX := tx, targetY := ty\<rparr>
      else c)"

text \<open>
  \<open>while (this.currentIndex < this.path.length - 1)\<close>: the result is the node after the
  current position, if the loop returns one, and the final \<open>currentIndex\<close>.
\<close>

function seekCurrent :: "TilePosition list \<Rightarrow> nat \<Rightarrow> int \<Rightarrow> int \<Rightarrow> TilePosition option \<times> nat" where
  "seekCurrent p i cx cy =
     (if int i < int (length p) - 1
      then (if fst (p ! i) = cx \<and> snd (p ! i) = cy then (Some (p ! (i + 1)), i)
            else seekCurrent p (i + 1) cx cy)
      else (None, i))"
  by pat_completeness auto
termination
  by (relation "measure (\<lambda>(p, i, cx, cy). length p - i)") auto

declare seekCurrent.simps [simp del]

lemma seekCurrent_found_first:
  "int i < int (length p) - 1 \<Longrightarrow> p ! i = (cx, cy) \<Longrightarrow> seekCurrent p i cx cy = (Some (p ! (i + 1)), i)"
  by (subst seekCurrent.simps) simp

text \<open>
  \<open>getNextStep\<close>. The third component of the result counts the calls of
  \<open>Pathfinder.findPath\<close> made during the call.
\<close>

function getNextStep ::
  "CachedPath \<Rightarrow> int \<Rightarrow> int \<Rightarrow> int \<Rightarrow> int \<Rightarrow> TileMap \<Rightarrow> bool
     \<Rightarrow> TilePosition option \<times> CachedPath \<times> nat" where
  "getNextStep c currentX currentY tx ty m forceRecalculate =
     (case path (recalculated c currentX currentY tx ty m forceRecalculate) of
        None \<Rightarrow>
          (None, recalculated c currentX currentY tx ty m forceRecalculate,
           if mustRecalculate c tx ty forceRecalculate then 1 else 0)
      | Some p \<Rightarrow>
          (if length p < 2
           then (None, recalculated c currentX currentY tx ty m forceRecalculate,
                 if mustRecalculate c tx ty forceRecalculate then 1 else 0)
           else
             (case seekCurrent p
                     (currentIndex (recalculated c currentX currentY tx ty m forceRecalculate))
                     currentX currentY of
                (Some nxt, i) \<Rightarrow>
                  (Some nxt,
                   (recalculated c currentX currentY tx ty m forceRecalculate)\<lparr>currentIndex := i\<rparr>,
                   if mustRecalculate c tx ty forceRecalculate then 1 else 0)
              | (None, i) \<Rightarrow>
                  (if int i \<ge> int (length p) - 1
                   then
                     (case getNextStep
                             ((recalculated c currentX currentY tx ty m forceRecalculate)
                                \<lparr>currentIndex := i\<rparr>)
                             currentX currentY tx ty m True of
                        (r, c', n) \<Rightarrow>
                          (r, c', (if mustRecalculate c tx ty forceRecalculate then 1 else 0) + n))
                   else (None,
                         (recalculated c currentX currentY tx ty m forceRecalculate)
                           \<lparr>currentIndex := i\<rparr>,
                         if mustRecalculate c tx ty forceRecalculate then 1 else 0)))))"
  by pat_completeness auto
termination
proof (relation "measure (\<lambda>(c, cx, cy, tx, ty, m, force). if force then 0 else 1)", goal_cases)
  case 1
  show ?case by simp
next
  case (2 c currentX currentY tx ty m forceRecalculate p x1 i)
  have "\<not> forceRecalculate"
  proof
    assume f: forceRecalculate
    then have rc: "recalculated c currentX currentY tx ty m forceRecalculate =
        c\<lparr>path := findPath currentX currentY tx ty m 500, currentIndex := 0,
          targetX := tx, targetY := ty\<rparr>"
      by (simp add: recalculated_def mustRecalculate_def)
    with 2 have fp: "findPath currentX currentY tx ty m 500 = Some p" by simp
    from findPath_endpoints [OF fp] have "p \<noteq> []" "hd p = (currentX, currentY)" by simp_all
    then have "p ! 0 = (currentX, currentY)" by (simp add: hd_conv_nth)
    moreover have "int 0 < int (length p) - 1" using 2 by simp
    ultimately have "seekCurrent p 0 currentX currentY = (Some (p ! (0 + 1)), 0)"
      by (intro seekCurrent_found_first) simp_all
    with 2 rc show False by simp
  qed
  then show ?case by simp
qed

declare getNextStep.simps [simp del]

section \<open>Numbers (IEEE 754 binary64)\<close>

text \<open>
  A JavaScript number is a double: a finite value \<open>m * 2 ^ e\<close> with \<open>\<bar>m\<bar> < 2 ^ 53\<close> and
  \<open>- 1074 \<le> e \<le> 971\<close>, an infinity or NaN. A finite double is represented by its value;
  the two zeros, which are equal as numbers, are not distinguished.
\<close>

datatype double = Finite real | PlusInfinity | MinusInfinity | NaN

text \<open>\<open>ilog2 n\<close> is the position of the leading bit of \<open>n \<ge> 1\<close>.\<close>

function ilog2 :: "int \<Rightarrow> int" where
  "ilog2 n = (if n < 2 then 0 else 1 + ilog2 (n div 2))"
  by auto
termination by (relation "measure nat") auto

declare ilog2.simps [simp del]

definition pow2 :: "int \<Rightarrow> real" where
  "pow2 e = (if 0 \<le> e then 2 ^ nat e else 1 / 2 ^ nat (- e))"

text \<open>The binary exponent of \<open>q > 0\<close>: \<open>2 ^ exponent q \<le> q < 2 ^ (exponent q + 1)\<close>.\<close>

definition exponent :: "real \<Rightarrow> int" where
  "exponent q = (if 1 \<le> q then ilog2 \<lfloor>q\<rfloor>
                 else - (ilog2 (\<lceil>1 / q\<rceil> - 1) + 1))"

definition roundTiesToEven :: "real \<Rightarrow> int" where
  "roundTiesToEven t =
     (if t - of_int \<lfloor>t\<rfloor> < 1 / 2 then \<lfloor>t\<rfloor>
      else if 1 / 2 < t - of_int \<lfloor>t\<rfloor> then \<lfloor>t\<rfloor> + 1
      else if even \<lfloor>t\<rfloor> then \<lfloor>t\<rfloor> else \<lfloor>t\<rfloor> + 1)"

text \<open>
  The double that an arithmetic operation returns for the exact result \<open>q\<close>: the nearest
  multiple of the unit in the last place (53 significant bits, exponents from \<open>- 1022\<close>,
  so that small results are subnormal), a tie going to the even multiple, and an infinity
  when the rounded magnitude reaches \<open>2 ^ 1024\<close>.
\<close>

definition fl :: "real \<Rightarrow> double" where
  "fl q =
     (if q = 0 then Finite 0
      else let ulp = pow2 (max (exponent \<bar>q\<bar>) (- 1022) - 52);
               r = of_int (roundTiesToEven (q / ulp)) * ulp
           in if pow2 1024 \<le> r then PlusInfinity
              else if r \<le> - pow2 1024 then MinusInfinity
              else Finite r)"

text \<open>The operators \<open>*\<close>, \<open>/\<close> and \<open><\<close> on numbers.\<close>

fun dmul :: "double \<Rightarrow> double \<Rightarrow> double" where
  "dmul (Finite a) (Finite b) = fl (a * b)"
| "dmul NaN b = NaN"
| "dmul a NaN = NaN"
| "dmul (Finite a) PlusInfinity =
     (if a = 0 then NaN else if 0 < a then PlusInfinity else MinusInfinity)"
| "dmul (Finite a) MinusInfinity =
     (if a = 0 then NaN else if 0 < a then MinusInfinity else PlusInfinity)"
| "dmul PlusInfinity (Finite b) =
     (if b = 0 then NaN else if 0 < b then PlusInfinity else MinusInfinity)"
| "dmul MinusInfinity (Finite b) =
     (if b = 0 then NaN else if 0 < b then MinusInfinity else PlusInfinity)"
| "dmul PlusInfinity PlusInfinity = PlusInfinity"
| "dmul PlusInfinity MinusInfinity = MinusInfinity"
| "dmul MinusInfinity PlusInfinity = MinusInfinity"
| "dmul MinusInfinity MinusInfinity = PlusInfinity"

text \<open>
  A zero divisor is read as \<open>+0\<close>; the program divides by the literals \<open>10\<close> and \<open>100\<close>
  only.
\<close>

fun ddiv :: "double \<Rightarrow> double \<Rightarrow> double" where
  "ddiv (Finite a) (Finite b) =
     (if b \<noteq> 0 then fl (a / b)
      else if a = 0 then NaN else if 0 < a then PlusInfinity else MinusInfinity)"
| "ddiv NaN b = NaN"
| "ddiv a NaN = NaN"
| "ddiv (Finite a) b = Finite 0"
| "ddiv PlusInfinity (Finite b) = (if 0 \<le> b then PlusInfinity else MinusInfinity)"
| "ddiv MinusInfinity (Finite b) = (if 0 \<le> b then MinusInfinity else PlusInfinity)"
| "ddiv a b = NaN"

fun dless :: "double \<Rightarrow> double \<Rightarrow> bool" where
  "dless (Finite a) (Finite b) = (a < b)"
| "dless NaN b = False"
| "dless a NaN = False"
| "dless a MinusInfinity = False"
| "dless PlusInfinity b = False"
| "dless a b = True"

text \<open>
  \<open>Math.round\<close>: the nearest integer, a tie going up. For a double \<open>y\<close> the integer
  \<open>\<lfloor>y + 1 / 2\<rfloor>\<close> is a double again (\<open>y\<close> is itself an integer from \<open>2 ^ 52\<close> on).
\<close>

fun Math_round :: "double \<Rightarrow> double" where
  "Math_round (Finite y) = Finite (of_int \<lfloor>y + 1 / 2\<rfloor>)"
| "Math_round d = d"

text \<open>\<open>v || d\<close> on numbers: \<open>0\<close> and NaN are falsy.\<close>

definition orElse :: "double \<Rightarrow> double \<Rightarrow> double" where
  "orElse v d = (if v = Finite 0 \<or> v = NaN then d else v)"

section \<open>Network synchronisation (NetworkManager.ts, RemotePlayer.ts)\<close>

text \<open>
  Times (\<open>Date.now()\<close>, server timestamps) are integer milliseconds. Positions, health
  and directions are JavaScript numbers, of type \<open>double\<close>.
\<close>

record RemotePlayerState =
  st_x :: double
  st_y :: double
  st_health :: double
  st_currentAnim :: string
  st_facingX :: double
  st_facingY :: double
  st_timestamp :: int

record RemotePlayer =
  rp_playerId :: string
  rp_x :: double
  rp_y :: double
  rp_health :: double
  rp_targetX :: double
  rp_targetY :: double
  rp_previousX :: double
  rp_previousY :: double
  rp_interpolationProgress :: double
  rp_currentAnim :: string
  rp_lastUpdateTime :: int

definition TILE_SIZE :: double where
  "TILE_SIZE = Finite 32"

text \<open>\<open>new RemotePlayer(playerId, x, y)\<close>, constructed at time \<open>now\<close>.\<close>

definition newRemotePlayer :: "string \<Rightarrow> double \<Rightarrow> double \<Rightarrow> int \<Rightarrow> RemotePlayer" where
  "newRemotePlayer pid x y now =
     \<lparr>rp_playerId = pid, rp_x = dmul x TILE_SIZE, rp_y = dmul y TILE_SIZE,
      rp_health = Finite 100,
      rp_targetX = x, rp_targetY = y, rp_previousX = x, rp_previousY = y,
      rp_interpolationProgress = Finite 0, rp_currentAnim = ''idle_down'', rp_lastUpdateTime = now\<rparr>"

definition updateFromNetwork :: "RemotePlayer \<Rightarrow> RemotePlayerState \<Rightarrow> int \<Rightarrow> RemotePlayer" where
  "updateFromNetwork rp s now =
     rp\<lparr>rp_previousX := rp_x rp, rp_previousY := rp_y rp,
        rp_targetX := st_x s, rp_targetY := st_y s,
        rp_interpolationProgress := Finite 0,
        rp_health := st_health s, rp_currentAnim := st_currentAnim s,
        rp_lastUpdateTime := now\<rparr>"

text \<open>
  The value stored under \<open>players/{playerId}\<close>. \<open>joinRoom\<close> writes \<open>joinedAt\<close>,
  \<open>updatePlayer\<close> writes \<open>timestamp\<close>; an inbound record may lack the animation and
  the facing.
\<close>

record PlayerData =
  pd_id :: string
  pd_x :: double
  pd_y :: double
  pd_health :: double
  pd_currentAnim :: "string option"
  pd_facingX :: "double option"
  pd_facingY :: "double option"
  pd_joinedAt :: "int option"
  pd_timestamp :: "int option"

record EnemyState =
  es_x :: double
  es_y :: double
  es_health :: double
  es_isDying :: bool

record EnemiesData =
  ed_states :: "EnemyState list option"
  ed_timestamp :: int

text \<open>The value stored under \<open>projectiles/{autoId}\<close>.\<close>

record ProjectileData =
  pj_playerId :: string
  pj_x :: double
  pj_y :: double
  pj_dx :: double
  pj_dy :: double
  pj_timestamp :: "int option"

text \<open>The fields of the local \<open>Player\<close> and of an \<open>Enemy\<close> that are published.\<close>

record Player =
  pl_x :: double
  pl_y :: double
  pl_health :: double
  pl_currentAnim :: string
  pl_facingX :: double
  pl_facingY :: double

record Enemy =
  en_x :: double
  en_y :: double
  en_health :: double
  en_isDying :: bool

text \<open>
  Writes to the remote store are returned as a list of write operations, each with the
  room it goes to; callbacks into the game are returned as a list of events.
\<close>

datatype db_write =
    SetPlayer string string "PlayerData option"
  | SetEnemies string EnemiesData
  | PushProjectile string ProjectileData

datatype callback_event =
    RemotePlayerAdded RemotePlayer
  | RemotePlayerRemoved string
  | EnemiesUpdated "EnemyState list"
  | ProjectileReceived double double double double string

datatype subscription = PlayersSub | EnemiesSub | ProjectilesSub

text \<open>
  \<open>remotePlayers\<close> is a \<open>Map\<close> (insertion ordered, unique keys): an association list
  with \<open>AList.update\<close> for \<open>set\<close> and \<open>AList.delete\<close> for \<open>delete\<close>.
  \<open>listeners\<close> holds one entry per registered listener; the three optional callbacks
  are the flags \<open>has...Callback\<close>.
\<close>

record NetworkManager =
  roomId :: string
  playerId :: string
  isHost :: bool
  lastPositionUpdate :: int
  lastEnemyUpdate :: int
  remotePlayers :: "(string \<times> RemotePlayer) list"
  listeners :: "subscription list"
  hasRemotePlayerAddedCallback :: bool
  hasRemotePlayerRemovedCallback :: bool
  hasEnemiesUpdatedCallback :: bool

definition POSITION_UPDATE_INTERVAL :: int where
  "POSITION_UPDATE_INTERVAL = 50"

definition ENEMY_UPDATE_INTERVAL :: int where
  "ENEMY_UPDATE_INTERVAL = 100"

text \<open>The constructor; the generated player id is a parameter.\<close>

definition newNetworkManager :: "string \<Rightarrow> string \<Rightarrow> NetworkManager" where
  "newNetworkManager rid pid =
     \<lparr>roomId = rid, playerId = pid, isHost = False, lastPositionUpdate = 0,
      lastEnemyUpdate = 0, remotePlayers = [], listeners = [],
      hasRemotePlayerAddedCallback = False, hasRemotePlayerRemovedCallback = False,
      hasEnemiesUpdatedCallback = False\<rparr>"

text \<open>
  \<open>joinRoom\<close>. \<open>snapshot\<close> is the value read from the players subtree: \<open>None\<close> when
  \<open>snapshot.exists()\<close> is false, otherwise the entries of \<open>snapshot.val()\<close>.
  The reads and writes are awaited one after the other; the model takes the snapshot that
  the read returned and performs the rest in one step.
\<close>

definition joinRoom ::
  "NetworkManager \<Rightarrow> (string \<times> PlayerData) list option \<Rightarrow> int \<Rightarrow> NetworkManager \<times> db_write list" where
  "joinRoom nm snapshot serverTime =
     (let host = (case snapshot of None \<Rightarrow> True | Some ps \<Rightarrow> length (map fst ps) = 0)
      in (nm\<lparr>isHost := host,
             listeners := (if \<not> host then listeners nm @ [PlayersSub, EnemiesSub]
                           else listeners nm @ [PlayersSub])\<rparr>,
          [SetPlayer (roomId nm) (playerId nm)
             (Some \<lparr>pd_id = playerId nm, pd_x = Finite 0, pd_y = Finite 0,
                    pd_health = Finite 100,
                    pd_currentAnim = Some ''idle_down'', pd_facingX = Some (Finite 0),
                    pd_facingY = Some (Finite 1), pd_joinedAt = Some serverTime,
                    pd_timestamp = None\<rparr>)]))"

text \<open>The listener of \<open>listenForPlayers\<close>: first loop (update or add remote players).\<close>

fun updateOrAdd ::
  "string \<Rightarrow> bool \<Rightarrow> int \<Rightarrow> (string \<times> PlayerData) list
     \<Rightarrow> (string \<times> RemotePlayer) list \<times> string set \<times> callback_event list
     \<Rightarrow> (string \<times> RemotePlayer) list \<times> string set \<times> callback_event list" where
  "updateOrAdd self cb now [] acc = acc"
| "updateOrAdd self cb now ((i, d) # es) (rps, ids, evs) =
     (if i = self then updateOrAdd self cb now es (rps, ids, evs)
      else
        (case map_of rps i of
           Some rp \<Rightarrow>
             updateOrAdd self cb now es
               (AList.update i
                  (updateFromNetwork rp
                     \<lparr>st_x = pd_x d, st_y = pd_y d, st_health = pd_health d,
                      st_currentAnim =
                        (case pd_currentAnim d of None \<Rightarrow> ''idle_down''
                         | Some a \<Rightarrow> if a = [] then ''idle_down'' else a),
                      st_facingX =
                        (case pd_facingX d of None \<Rightarrow> Finite 0 | Some v \<Rightarrow> orElse v (Finite 0)),
                      st_facingY =
                        (case pd_facingY d of None \<Rightarrow> Finite 1 | Some v \<Rightarrow> orElse v (Finite 1)),
                      st_timestamp = now\<rparr> now) rps,
                insert i ids, evs)
         | None \<Rightarrow>
             updateOrAdd self cb now es
               (AList.update i (newRemotePlayer i (pd_x d) (pd_y d) now) rps,
                insert i ids,
                (if cb then evs @ [RemotePlayerAdded (newRemotePlayer i (pd_x d) (pd_y d) now)]
                 else evs))))"

text \<open>Second loop (remove the players that are no longer in the snapshot).\<close>

fun removeDisconnected ::
  "bool \<Rightarrow> string set \<Rightarrow> string list
     \<Rightarrow> (string \<times> RemotePlayer) list \<times> callback_event list
     \<Rightarrow> (string \<times> RemotePlayer) list \<times> callback_event list" where
  "removeDisconnected cb ids [] acc = acc"
| "removeDisconnected cb ids (i # is) (rps, evs) =
     (if i \<notin> ids
      then removeDisconnected cb ids is
             (AList.delete i rps, (if cb then evs @ [RemotePlayerRemoved i] else evs))
      else removeDisconnected cb ids is (rps, evs))"

definition onPlayersValue ::
  "NetworkManager \<Rightarrow> int \<Rightarrow> (string \<times> PlayerData) list option
     \<Rightarrow> NetworkManager \<times> callback_event list" where
  "onPlayersValue nm now snapshot =
     (case snapshot of
        None \<Rightarrow> (nm, [])
      | Some players \<Rightarrow>
          (case updateOrAdd (playerId nm) (hasRemotePlayerAddedCallback nm) now players
                  (remotePlayers nm, {}, [])
           of (rps, ids, evs) \<Rightarrow>
             (case removeDisconnected (hasRemotePlayerRemovedCallback nm) ids (map fst rps)
                     (rps, evs)
              of (rps', evs') \<Rightarrow> (nm\<lparr>remotePlayers := rps'\<rparr>, evs'))))"

definition getRemotePlayers :: "NetworkManager \<Rightarrow> RemotePlayer list" where
  "getRemotePlayers nm = map snd (remotePlayers nm)"

text \<open>\<open>Math.round(v * 10) / 10\<close> and \<open>Math.round(v * 100) / 100\<close>.\<close>

definition round1 :: "double \<Rightarrow> double" where
  "round1 v = ddiv (Math_round (dmul v (Finite 10))) (Finite 10)"

definition round2 :: "double \<Rightarrow> double" where
  "round2 v = ddiv (Math_round (dmul v (Finite 100))) (Finite 100)"

definition updatePlayer ::
  "NetworkManager \<Rightarrow> int \<Rightarrow> int \<Rightarrow> Player \<Rightarrow> NetworkManager \<times> db_write list" where
  "updatePlayer nm now serverTime player =
     (if now - lastPositionUpdate nm < POSITION_UPDATE_INTERVAL then (nm, [])
      else (nm\<lparr>lastPositionUpdate := now\<rparr>,
            [SetPlayer (roomId nm) (playerId nm)
               (Some \<lparr>pd_id = playerId nm, pd_x = round1 (pl_x player),
                      pd_y = round1 (pl_y player), pd_health = pl_health player,
                      pd_currentAnim = Some (pl_currentAnim player),
                      pd_facingX = Some (pl_facingX player),
                      pd_facingY = Some (pl_facingY player),
                      pd_joinedAt = None, pd_timestamp = Some serverTime\<rparr>)]))"

definition updateEnemies ::
  "NetworkManager \<Rightarrow> int \<Rightarrow> int \<Rightarrow> Enemy list \<Rightarrow> NetworkManager \<times> db_write list" where
  "updateEnemies nm now serverTime enemies =
     (if \<not> isHost nm then (nm, [])
      else if now - lastEnemyUpdate nm < ENEMY_UPDATE_INTERVAL then (nm, [])
      else (nm\<lparr>lastEnemyUpdate := now\<rparr>,
            [SetEnemies (roomId nm)
               \<lparr>ed_states =
                  Some (map (\<lambda>e. \<lparr>es_x = round1 (en_x e), es_y = round1 (en_y e),
                                   es_health = en_health e, es_isDying = en_isDying e\<rparr>)
                          (filter (\<lambda>e. dless (Finite 0) (en_health e) \<or> en_isDying e) enemies)),
                ed_timestamp = serverTime\<rparr>]))"

definition onEnemiesValue :: "NetworkManager \<Rightarrow> EnemiesData option \<Rightarrow> callback_event list" where
  "onEnemiesValue nm snapshot =
     (case snapshot of
        None \<Rightarrow> []
      | Some d \<Rightarrow>
          (case ed_states d of
             None \<Rightarrow> []
           | Some ss \<Rightarrow> if hasEnemiesUpdatedCallback nm then [EnemiesUpdated ss] else []))"

definition sendProjectile ::
  "NetworkManager \<Rightarrow> int \<Rightarrow> double \<Rightarrow> double \<Rightarrow> double \<Rightarrow> double \<Rightarrow> db_write list" where
  "sendProjectile nm serverTime x y dx dy =
     [PushProjectile (roomId nm)
        \<lparr>pj_playerId = playerId nm, pj_x = round1 x, pj_y = round1 y,
         pj_dx = round2 dx, pj_dy = round2 dy, pj_timestamp = Some serverTime\<rparr>]"

text \<open>
  The listener of \<open>listenForProjectiles\<close>. \<open>projectile.timestamp || 0\<close> is \<open>0\<close> for a
  missing (or zero) timestamp. The calls of \<open>callback\<close> are returned in order.
\<close>

definition projectileAge :: "int \<Rightarrow> ProjectileData \<Rightarrow> int" where
  "projectileAge now p =
     now - (case pj_timestamp p of None \<Rightarrow> 0 | Some t \<Rightarrow> if t = 0 then 0 else t)"

fun deliverProjectiles :: "string \<Rightarrow> int \<Rightarrow> ProjectileData list \<Rightarrow> callback_event list" where
  "deliverProjectiles self now [] = []"
| "deliverProjectiles self now (p # ps) =
     (if pj_playerId p \<noteq> self \<and> projectileAge now p < 1000
      then ProjectileReceived (pj_x p) (pj_y p) (pj_dx p) (pj_dy p) (pj_playerId p)
             # deliverProjectiles self now ps
      else deliverProjectiles self now ps)"

definition onProjectilesValue ::
  "NetworkManager \<Rightarrow> int \<Rightarrow> (string \<times> ProjectileData) list option \<Rightarrow> callback_event list" where
  "onProjectilesValue nm now snapshot =
     (case snapshot of
        None \<Rightarrow> []
      | Some projectiles \<Rightarrow> deliverProjectiles (playerId nm) now (map snd projectiles))"

definition listenForProjectiles :: "NetworkManager \<Rightarrow> NetworkManager" where
  "listenForProjectiles nm = nm\<lparr>listeners := listeners nm @ [ProjectilesSub]\<rparr>"

definition leaveRoom :: "NetworkManager \<Rightarrow> NetworkManager \<times> db_write list" where
  "leaveRoom nm =
     (nm\<lparr>listeners := [], remotePlayers := []\<rparr>, [SetPlayer (roomId nm) (playerId nm) None])"

text \<open>
  Everything that can happen to a session: the calls of its public methods and the
  deliveries of its listeners. A listener only fires while it is registered.
\<close>

datatype nm_op =
    JoinRoom "(string \<times> PlayerData) list option" int
  | PlayersValue int "(string \<times> PlayerData) list option"
  | EnemiesValue "EnemiesData option"
  | ProjectilesValue int "(string \<times> ProjectileData) list option"
  | UpdatePlayer int int Player
  | UpdateEnemies int int "Enemy list"
  | SendProjectile int double double double double
  | ListenForProjectiles
  | OnRemotePlayerAdded
  | OnRemotePlayerRemoved
  | OnEnemiesUpdated
  | LeaveRoom

fun nm_step :: "NetworkManager \<Rightarrow> nm_op \<Rightarrow> NetworkManager \<times> db_write list \<times> callback_event list" where
  "nm_step nm (JoinRoom snapshot serverTime) =
     (case joinRoom nm snapshot serverTime of (nm', ws) \<Rightarrow> (nm', ws, []))"
| "nm_step nm (PlayersValue now snapshot) =
     (if PlayersSub \<in> set (listeners nm)
      then (case onPlayersValue nm now snapshot of (nm', evs) \<Rightarrow> (nm', [], evs))
      else (nm, [], []))"
| "nm_step nm (EnemiesValue snapshot) =
     (if EnemiesSub \<in> set (listeners nm) then (nm, [], onEnemiesValue nm snapshot)
      else (nm, [], []))"
| "nm_step nm (ProjectilesValue now snapshot) =
     (if ProjectilesSub \<in> set (listeners nm) then (nm, [], onProjectilesValue nm now snapshot)
      else (nm, [], []))"
| "nm_step nm (UpdatePlayer now serverTime player) =
     (case updatePlayer nm now serverTime player of (nm', ws) \<Rightarrow> (nm', ws, []))"
| "nm_step nm (UpdateEnemies now serverTime enemies) =
     (case updateEnemies nm now serverTime enemies of (nm', ws) \<Rightarrow> (nm', ws, []))"
| "nm_step nm (SendProjectile serverTime x y dx dy) =
     (nm, sendProjectile nm serverTime x y dx dy, [])"
| "nm_step nm ListenForProjectiles = (listenForProjectiles nm, [], [])"
| "nm_step nm OnRemotePlayerAdded = (nm\<lparr>hasRemotePlayerAddedCallback := True\<rparr>, [], [])"
| "nm_step nm OnRemotePlayerRemoved = (nm\<lparr>hasRemotePlayerRemovedCallback := True\<rparr>, [], [])"
| "nm_step nm OnEnemiesUpdated = (nm\<lparr>hasEnemiesUpdatedCallback := True\<rparr>, [], [])"
| "nm_step nm LeaveRoom = (case leaveRoom nm of (nm', ws) \<Rightarrow> (nm', ws, []))"

text \<open>A session history: the state after a list of operations.\<close>

fun nm_run :: "NetworkManager \<Rightarrow> nm_op list \<Rightarrow> NetworkManager" where
  "nm_run nm [] = nm"
| "nm_run nm (a # as) = nm_run (fst (nm_step nm a)) as"

section \<open>Flow field (main.ts)\<close>

text \<open>
  \<open>distances\<close> is a \<open>Uint16Array\<close>. Reading a typed array outside its range yields
  \<open>undefined\<close> (\<open>None\<close>), writing outside its range does nothing, and a stored number
  is reduced modulo \<open>2^16\<close>.
\<close>

record FlowField =
  distances :: "16 word list"
  target :: TilePosition
  ff_cols :: int
  ff_rows :: int
  MAX_DISTANCE :: int

definition ta_get :: "16 word list \<Rightarrow> int \<Rightarrow> int option" where
  "ta_get a i = (if 0 \<le> i \<and> i < int (length a) then Some (uint (a ! nat i)) else None)"

definition ta_set :: "16 word list \<Rightarrow> int \<Rightarrow> int \<Rightarrow> 16 word list" where
  "ta_set a i v = (if 0 \<le> i \<and> i < int (length a) then a[nat i := word_of_int v] else a)"

definition ta_fill :: "16 word list \<Rightarrow> int \<Rightarrow> 16 word list" where
  "ta_fill a v = map (\<lambda>_. word_of_int v) a"

text \<open>
  The body of \<open>for (const neighbor of neighbors)\<close> in \<open>calculateFlowField\<close>, on the
  distances and the queue. A queue entry is \<open>(x, y, dist)\<close>; \<open>dist\<close> starts at 0 and
  only grows by one, so it is a \<open>nat\<close>. A comparison with \<open>undefined\<close> is false.
\<close>

definition visitFlowNeighbor ::
  "TileMap \<Rightarrow> int \<Rightarrow> nat \<Rightarrow> 16 word list \<times> (int \<times> int \<times> nat) list \<Rightarrow> TilePosition
     \<Rightarrow> 16 word list \<times> (int \<times> int \<times> nat) list" where
  "visitFlowNeighbor m fcols currentDist s nb =
     (if \<not> isValidTile m (fst nb) (snd nb) \<or> isSolid m (fst nb) (snd nb) then s
      else
        (case ta_get (fst s) (snd nb * fcols + fst nb) of
           None \<Rightarrow> s
         | Some old \<Rightarrow>
             (if int (currentDist + 1) < old
              then (ta_set (fst s) (snd nb * fcols + fst nb) (int (currentDist + 1)),
                    snd s @ [(fst nb, snd nb, currentDist + 1)])
              else s)))"

text \<open>One pass of \<open>while (queueIndex < queue.length)\<close> for the entry \<open>current\<close>.\<close>

definition processEntry ::
  "TileMap \<Rightarrow> int \<Rightarrow> int \<times> int \<times> nat \<Rightarrow> 16 word list \<times> (int \<times> int \<times> nat) list
     \<Rightarrow> 16 word list \<times> (int \<times> int \<times> nat) list" where
  "processEntry m fcols current s =
     foldl (visitFlowNeighbor m fcols (snd (snd current))) s
       (neighbors (fst current) (fst (snd current)))"

lemma uint_word16: "0 \<le> v \<Longrightarrow> v \<le> 65535 \<Longrightarrow> uint (word_of_int v :: 16 word) = v"
  by (simp add: uint_word_of_int)

text \<open>
  Each push stores a value strictly below the one it replaces, so the sum of the stored
  values decreases with every push: the loop terminates.
\<close>

lemma sum_list_update_less:
  fixes f :: "'a \<Rightarrow> nat"
  shows "k < length xs \<Longrightarrow> f v < f (xs ! k) \<Longrightarrow>
    sum_list (map f (xs[k := v])) < sum_list (map f xs)"
proof (induction xs arbitrary: k)
  case (Cons a xs)
  then show ?case by (cases k) auto
qed simp

lemma visitFlowNeighbor_cases:
  "visitFlowNeighbor m c d s nb = s \<or>
   sum_list (map unat (fst (visitFlowNeighbor m c d s nb))) < sum_list (map unat (fst s))"
proof (cases "visitFlowNeighbor m c d s nb = s")
  case False
  define i where "i = snd nb * c + fst nb"
  from False obtain old where
    g: "ta_get (fst s) i = Some old" and lt: "int (d + 1) < old" and
    r: "visitFlowNeighbor m c d s nb = (ta_set (fst s) i (int (d + 1)), snd s @ [(fst nb, snd nb, d + 1)])"
    unfolding visitFlowNeighbor_def i_def by (auto split: if_splits option.splits)
  from g have rng: "0 \<le> i" "i < int (length (fst s))" and old: "old = uint (fst s ! nat i)"
    by (auto simp: ta_get_def split: if_splits)
  have o: "old < 65536" using uint_lt2p [of "fst s ! nat i"] old by simp
  have "uint (word_of_int (int (d + 1)) :: 16 word) = int (d + 1)"
    using lt o by (intro uint_word16) simp_all
  then have "unat (word_of_int (int (d + 1)) :: 16 word) = d + 1"
    by (simp only: unat_eq_nat_uint nat_int)
  moreover have "d + 1 < unat (fst s ! nat i)"
  proof -
    from lt old have "int (d + 1) < int (unat (fst s ! nat i))" by (simp only: uint_nat)
    then show ?thesis by (simp only: of_nat_less_iff)
  qed
  moreover have "nat i < length (fst s)" using rng by (simp add: nat_less_iff)
  ultimately have "sum_list (map unat ((fst s)[nat i := word_of_int (int (d + 1))]))
      < sum_list (map unat (fst s))"
    by (intro sum_list_update_less) simp_all
  then show ?thesis using r rng by (simp add: ta_set_def)
qed simp

lemma processEntry_cases:
  "foldl (visitFlowNeighbor m c d) s nbs = s \<or>
   sum_list (map unat (fst (foldl (visitFlowNeighbor m c d) s nbs))) < sum_list (map unat (fst s))"
proof (induction nbs arbitrary: s)
  case (Cons nb nbs)
  show ?case
    using Cons [of "visitFlowNeighbor m c d s nb"] visitFlowNeighbor_cases [of m c d s nb]
    by auto
qed simp

text \<open>
  \<open>while (queueIndex < queue.length) { const current = queue[queueIndex++]; ... }\<close>
\<close>

function bfs_loop ::
  "TileMap \<Rightarrow> int \<Rightarrow> 16 word list \<Rightarrow> (int \<times> int \<times> nat) list \<Rightarrow> nat \<Rightarrow> 16 word list" where
  "bfs_loop m fcols ds queue queueIndex =
     (if queueIndex < length queue
      then bfs_loop m fcols (fst (processEntry m fcols (queue ! queueIndex) (ds, queue)))
             (snd (processEntry m fcols (queue ! queueIndex) (ds, queue))) (queueIndex + 1)
      else ds)"
  by pat_completeness auto
termination
proof (relation "measures [\<lambda>(m, c, ds, q, qi). sum_list (map unat ds),
                           \<lambda>(m, c, ds, q, qi). length q - qi]", goal_cases)
  case 1
  show ?case by simp
next
  case (2 m fcols ds queue queueIndex)
  let ?r = "processEntry m fcols (queue ! queueIndex) (ds, queue)"
  have "?r = (ds, queue) \<or> sum_list (map unat (fst ?r)) < sum_list (map unat ds)"
    using processEntry_cases [of m fcols "snd (snd (queue ! queueIndex))" "(ds, queue)"
        "neighbors (fst (queue ! queueIndex)) (fst (snd (queue ! queueIndex)))"]
    by (simp add: processEntry_def)
  then show ?case
  proof
    assume "?r = (ds, queue)"
    then show ?thesis using 2 by simp
  next
    assume "sum_list (map unat (fst ?r)) < sum_list (map unat ds)"
    then show ?thesis by simp
  qed
qed

declare bfs_loop.simps [simp del]

text \<open>
  \<open>calculateFlowField\<close> edits the field in place; the model returns the edited field.
\<close>

definition calculateFlowField :: "FlowField \<Rightarrow> TilePosition \<Rightarrow> TileMap \<Rightarrow> FlowField" where
  "calculateFlowField flowField tgt m =
     (if fst (target flowField) = fst tgt \<and> snd (target flowField) = snd tgt then flowField
      else if \<not> isValidTile m (fst tgt) (snd tgt) \<or> isSolid m (fst tgt) (snd tgt)
      then flowField\<lparr>distances := ta_fill (distances flowField) (MAX_DISTANCE flowField)\<rparr>
      else flowField
             \<lparr>target := tgt,
              distances :=
                bfs_loop m (ff_cols flowField)
                  (ta_set (ta_fill (distances flowField) (MAX_DISTANCE flowField))
                     (snd tgt * ff_cols flowField + fst tgt) 0)
                  [(fst tgt, snd tgt, 0)] 0\<rparr>)"

text \<open>
  \<open>getFlowFieldDistance\<close> returns a number, or \<open>undefined\<close> (\<open>None\<close>) when the grid is
  shorter than \<open>cols * rows\<close>.
\<close>

definition getFlowFieldDistance :: "FlowField \<Rightarrow> int \<Rightarrow> int \<Rightarrow> int option" where
  "getFlowFieldDistance flowField x y =
     (if x < 0 \<or> x \<ge> ff_cols flowField \<or> y < 0 \<or> y \<ge> ff_rows flowField
      then Some (MAX_DISTANCE flowField)
      else ta_get (distances flowField) (y * ff_cols flowField + x))"


section \<open>Properties\<close>

subsection \<open>Search towards a solid goal\<close>

text \<open>
  C3. When the goal tile is solid, \<open>findPath\<close> returns the "no path" result at once:
  the search state is never created, so the open set is never populated and the main
  loop runs no iteration.
\<close>

theorem findPath_solid_goal:
  "isSolid m goalX goalY \<Longrightarrow>
     findPath_run startX startY goalX goalY m maxIterations = (None, None) \<and>
     findPath startX startY goalX goalY m maxIterations = None"
  by (simp add: findPath_def findPath_run_def)

text \<open>A corridor of three tiles whose last tile is a wall.\<close>

definition corridor3 :: TileMap where
  "corridor3 = \<lparr>cols = 3, rows = 1, tiles = [0, 0, 1],
     tileDefs = [0 \<mapsto> \<lparr>def_id = 0, solid = False\<rparr>, 1 \<mapsto> \<lparr>def_id = 1, solid = True\<rparr>]\<rparr>"

theorem findPath_solid_goal_witness:
  "isSolid corridor3 2 0 \<and> findPath_run 0 0 2 0 corridor3 1000 = (None, None) \<and>
   findPath 0 0 2 0 corridor3 1000 = None"
  using findPath_solid_goal [of corridor3 2 0 0 0 1000]
  by (simp add: isSolid_def getTile_def corridor3_def)

subsection \<open>Projectile delivery\<close>

lemma deliverProjectiles_filter:
  "deliverProjectiles self now ps =
     map (\<lambda>p. ProjectileReceived (pj_x p) (pj_y p) (pj_dx p) (pj_dy p) (pj_playerId p))
       (filter (\<lambda>p. pj_playerId p \<noteq> self \<and> projectileAge now p < 1000) ps)"
  by (induction ps) simp_all

text \<open>
  C6. For every batch of inbound projectile events and every receive time \<open>now\<close>, the
  callback is invoked, in order, exactly for the events whose owner differs from the local
  \<open>playerId\<close> and whose age is strictly under 1000 ms; a missing snapshot invokes nothing.
  The age of an event with timestamp \<open>t\<close> is \<open>now - t\<close>.
\<close>

theorem projectiles_delivered:
  "onProjectilesValue nm now None = [] \<and>
   onProjectilesValue nm now (Some batch) =
     map (\<lambda>p. ProjectileReceived (pj_x p) (pj_y p) (pj_dx p) (pj_dy p) (pj_playerId p))
       (filter (\<lambda>p. pj_playerId p \<noteq> playerId nm \<and> projectileAge now p < 1000) (map snd batch)) \<and>
   projectileAge now (p\<lparr>pj_timestamp := Some t\<rparr>) = now - t"
  by (simp add: onProjectilesValue_def deliverProjectiles_filter projectileAge_def)

subsection \<open>Remote players\<close>

text \<open>Every entry of the remote-player map is keyed by its own id, which is not the local one.\<close>

definition rp_inv :: "string \<Rightarrow> (string \<times> RemotePlayer) list \<Rightarrow> bool" where
  "rp_inv self rps \<longleftrightarrow> (\<forall>(k, rp) \<in> set rps. k \<noteq> self \<and> rp_playerId rp = k)"

lemma rp_inv_update:
  "rp_inv self rps \<Longrightarrow> k \<noteq> self \<Longrightarrow> rp_playerId rp = k \<Longrightarrow> rp_inv self (AList.update k rp rps)"
  unfolding rp_inv_def by (induction rps) (auto split: if_splits)

lemma rp_inv_delete: "rp_inv self rps \<Longrightarrow> rp_inv self (AList.delete k rps)"
  unfolding rp_inv_def by (auto simp: AList.delete_eq)

lemma rp_inv_map_of: "rp_inv self rps \<Longrightarrow> map_of rps k = Some rp \<Longrightarrow> rp_playerId rp = k"
  unfolding rp_inv_def by (auto dest: map_of_SomeD)

lemma updateOrAdd_inv:
  "rp_inv self (fst acc) \<Longrightarrow> rp_inv self (fst (updateOrAdd self cb now es acc))"
proof (induction self cb now es acc rule: updateOrAdd.induct)
  case (1 self cb now acc)
  then show ?case by simp
next
  case (2 self cb now i d es rps ids evs)
  have inv: "rp_inv self rps" using "2.prems" by simp
  show ?case
  proof (cases "i = self")
    case True
    then show ?thesis using 2 by simp
  next
    case False
    show ?thesis
    proof (cases "map_of rps i")
      case None
      have "rp_inv self (AList.update i (newRemotePlayer i (pd_x d) (pd_y d) now) rps)"
        using inv False by (intro rp_inv_update) (simp_all add: newRemotePlayer_def)
      then show ?thesis using 2 False None by simp
    next
      case (Some rp)
      have "rp_playerId rp = i" using inv Some by (rule rp_inv_map_of)
      then have "rp_inv self (AList.update i (updateFromNetwork rp s now) rps)" for s
        using inv False by (intro rp_inv_update) (simp_all add: updateFromNetwork_def)
      then show ?thesis using 2 False Some by simp
    qed
  qed
qed

lemma removeDisconnected_inv:
  "rp_inv self (fst acc) \<Longrightarrow> rp_inv self (fst (removeDisconnected cb ids is acc))"
  by (induction cb ids "is" acc rule: removeDisconnected.induct) (auto simp: rp_inv_delete)

lemma onPlayersValue_inv:
  assumes inv: "rp_inv (playerId nm) (remotePlayers nm)"
  shows "rp_inv (playerId (fst (onPlayersValue nm now snap)))
            (remotePlayers (fst (onPlayersValue nm now snap)))"
proof (cases snap)
  case None
  then show ?thesis using inv by (simp add: onPlayersValue_def)
next
  case (Some players)
  obtain rps ids evs where u:
    "updateOrAdd (playerId nm) (hasRemotePlayerAddedCallback nm) now players
        (remotePlayers nm, {}, []) = (rps, ids, evs)"
    by (metis prod_cases3)
  obtain rps' evs' where r:
    "removeDisconnected (hasRemotePlayerRemovedCallback nm) ids (map fst rps) (rps, evs) = (rps', evs')"
    by (metis surj_pair)
  have "rp_inv (playerId nm) rps"
    using updateOrAdd_inv [of "playerId nm" "(remotePlayers nm, {}, [])"
        "hasRemotePlayerAddedCallback nm" now players] inv u by simp
  then have "rp_inv (playerId nm) rps'"
    using removeDisconnected_inv [of "playerId nm" "(rps, evs)"
        "hasRemotePlayerRemovedCallback nm" ids "map fst rps"] r by simp
  then show ?thesis by (simp add: onPlayersValue_def Some u r)
qed

lemma nm_step_inv:
  assumes inv: "rp_inv (playerId nm) (remotePlayers nm)"
  shows "rp_inv (playerId (fst (nm_step nm a))) (remotePlayers (fst (nm_step nm a)))"
proof (cases a)
  case (PlayersValue now snap)
  from onPlayersValue_inv [OF inv, of now snap] inv show ?thesis
    by (auto simp add: PlayersValue split: prod.splits)
qed (use inv in \<open>auto simp: joinRoom_def updatePlayer_def updateEnemies_def leaveRoom_def
      listenForProjectiles_def rp_inv_def Let_def\<close>)

lemma nm_step_playerId: "playerId (fst (nm_step nm a)) = playerId nm"
  by (cases a) (auto simp: joinRoom_def updatePlayer_def updateEnemies_def leaveRoom_def
      listenForProjectiles_def onPlayersValue_def Let_def split: prod.splits option.splits)

lemma nm_run_inv:
  "rp_inv (playerId nm) (remotePlayers nm) \<Longrightarrow>
     rp_inv (playerId (nm_run nm ops)) (remotePlayers (nm_run nm ops))"
  by (induction ops arbitrary: nm) (auto intro: nm_step_inv)

lemma nm_run_playerId: "playerId (nm_run nm ops) = playerId nm"
  by (induction ops arbitrary: nm) (auto simp: nm_step_playerId)

text \<open>
  C10. After any history of a session, the remote-player map has no entry keyed by the
  local \<open>playerId\<close>, and \<open>getRemotePlayers\<close> returns no player with the local id.
\<close>

theorem remote_players_exclude_self:
  "pid \<notin> fst ` set (remotePlayers (nm_run (newNetworkManager rid pid) ops)) \<and>
   pid \<notin> rp_playerId ` set (getRemotePlayers (nm_run (newNetworkManager rid pid) ops))"
proof -
  have "rp_inv (playerId (newNetworkManager rid pid)) (remotePlayers (newNetworkManager rid pid))"
    by (simp add: newNetworkManager_def rp_inv_def)
  from nm_run_inv [OF this, of ops]
  have "rp_inv pid (remotePlayers (nm_run (newNetworkManager rid pid) ops))"
    by (simp add: nm_run_playerId newNetworkManager_def)
  then show ?thesis
    unfolding rp_inv_def getRemotePlayers_def by force
qed

subsection \<open>Throttled publication\<close>

text \<open>
  The times \<open>now\<close> of the calls of \<open>updatePlayer\<close> (of \<open>updateEnemies\<close>) that
  performed a write, along a session history.
\<close>

fun playerPublishTimes :: "NetworkManager \<Rightarrow> nm_op list \<Rightarrow> int list" where
  "playerPublishTimes nm [] = []"
| "playerPublishTimes nm (UpdatePlayer now serverTime player # as) =
     (if snd (updatePlayer nm now serverTime player) \<noteq> []
      then now # playerPublishTimes (fst (nm_step nm (UpdatePlayer now serverTime player))) as
      else playerPublishTimes (fst (nm_step nm (UpdatePlayer now serverTime player))) as)"
| "playerPublishTimes nm (a # as) = playerPublishTimes (fst (nm_step nm a)) as"

fun enemyPublishTimes :: "NetworkManager \<Rightarrow> nm_op list \<Rightarrow> int list" where
  "enemyPublishTimes nm [] = []"
| "enemyPublishTimes nm (UpdateEnemies now serverTime enemies # as) =
     (if snd (updateEnemies nm now serverTime enemies) \<noteq> []
      then now # enemyPublishTimes (fst (nm_step nm (UpdateEnemies now serverTime enemies))) as
      else enemyPublishTimes (fst (nm_step nm (UpdateEnemies now serverTime enemies))) as)"
| "enemyPublishTimes nm (a # as) = enemyPublishTimes (fst (nm_step nm a)) as"

lemma nm_step_lastPositionUpdate:
  "lastPositionUpdate (fst (nm_step nm a)) =
     (case a of UpdatePlayer now st p \<Rightarrow>
        if now - lastPositionUpdate nm < 50 then lastPositionUpdate nm else now
      | _ \<Rightarrow> lastPositionUpdate nm)"
  by (cases a) (auto simp: joinRoom_def updatePlayer_def updateEnemies_def leaveRoom_def
      listenForProjectiles_def onPlayersValue_def Let_def POSITION_UPDATE_INTERVAL_def
      split: prod.splits option.splits)

lemma nm_step_lastEnemyUpdate:
  "lastEnemyUpdate (fst (nm_step nm a)) =
     (case a of UpdateEnemies now st es \<Rightarrow>
        if \<not> isHost nm \<or> now - lastEnemyUpdate nm < 100 then lastEnemyUpdate nm else now
      | _ \<Rightarrow> lastEnemyUpdate nm)"
  by (cases a) (auto simp: joinRoom_def updatePlayer_def updateEnemies_def leaveRoom_def
      listenForProjectiles_def onPlayersValue_def Let_def ENEMY_UPDATE_INTERVAL_def
      split: prod.splits option.splits)

lemma playerPublishTimes_ge:
  "t \<in> set (playerPublishTimes nm ops) \<Longrightarrow> t - lastPositionUpdate nm \<ge> 50"
proof (induction nm ops rule: playerPublishTimes.induct)
  case (2 nm now serverTime player as)
  then show ?case
    by (auto simp: updatePlayer_def POSITION_UPDATE_INTERVAL_def split: if_splits)
qed (auto simp del: nm_step.simps simp add: nm_step_lastPositionUpdate)

lemma playerPublishTimes_spaced:
  "sorted_wrt (\<lambda>a b. a + 50 \<le> b) (playerPublishTimes nm ops)"
proof (induction nm ops rule: playerPublishTimes.induct)
  case (2 nm now serverTime player as)
  then show ?case
    by (auto simp: updatePlayer_def POSITION_UPDATE_INTERVAL_def split: if_splits
        dest!: playerPublishTimes_ge)
qed auto

lemma enemyPublishTimes_ge:
  "t \<in> set (enemyPublishTimes nm ops) \<Longrightarrow> t - lastEnemyUpdate nm \<ge> 100"
proof (induction nm ops rule: enemyPublishTimes.induct)
  case (2 nm now serverTime enemies as)
  then show ?case
    by (auto simp: updateEnemies_def ENEMY_UPDATE_INTERVAL_def split: if_splits)
qed (auto simp del: nm_step.simps simp add: nm_step_lastEnemyUpdate)

lemma enemyPublishTimes_spaced:
  "sorted_wrt (\<lambda>a b. a + 100 \<le> b) (enemyPublishTimes nm ops)"
proof (induction nm ops rule: enemyPublishTimes.induct)
  case (2 nm now serverTime enemies as)
  then show ?case
    by (auto simp: updateEnemies_def ENEMY_UPDATE_INTERVAL_def split: if_splits
        dest!: enemyPublishTimes_ge)
qed auto


lemma playerPublishTimes_last:
  "lastPositionUpdate (nm_run nm ops) =
     (if playerPublishTimes nm ops = [] then lastPositionUpdate nm
      else last (playerPublishTimes nm ops))"
proof (induction nm ops rule: playerPublishTimes.induct)
  case (2 nm now serverTime player as)
  then show ?case
    by (auto simp: updatePlayer_def POSITION_UPDATE_INTERVAL_def split: if_splits)
qed (auto simp del: nm_step.simps simp add: nm_step_lastPositionUpdate)

lemma enemyPublishTimes_last:
  "lastEnemyUpdate (nm_run nm ops) =
     (if enemyPublishTimes nm ops = [] then lastEnemyUpdate nm
      else last (enemyPublishTimes nm ops))"
proof (induction nm ops rule: enemyPublishTimes.induct)
  case (2 nm now serverTime enemies as)
  then show ?case
    by (auto simp: updateEnemies_def ENEMY_UPDATE_INTERVAL_def split: if_splits)
qed (auto simp del: nm_step.simps simp add: nm_step_lastEnemyUpdate)

definition demoPlayer :: Player where
  "demoPlayer = \<lparr>pl_x = Finite 0, pl_y = Finite 0, pl_health = Finite 100,
                  pl_currentAnim = ''idle_down'',
                  pl_facingX = Finite 0, pl_facingY = Finite 1\<rparr>"

text \<open>
  C4. For each category (player: 50 ms, enemy: 100 ms) and every session history, whatever
  the timestamps of the calls: any two calls that performed the publish write are at least
  the interval apart; a call within the interval of the last publishing call performs no
  write and leaves the state unchanged; a call performs no write exactly when it is within
  the interval of the stored timestamp (or, for enemies, the session is not host), and a
  publishing call stores its time as the new last-publish timestamp.
\<close>

theorem throttle_once_per_interval:
  "(\<forall>i j. i < j \<and> j < length (playerPublishTimes nm ops) \<longrightarrow>
       playerPublishTimes nm ops ! i + POSITION_UPDATE_INTERVAL \<le> playerPublishTimes nm ops ! j) \<and>
   (\<forall>i j. i < j \<and> j < length (enemyPublishTimes nm ops) \<longrightarrow>
       enemyPublishTimes nm ops ! i + ENEMY_UPDATE_INTERVAL \<le> enemyPublishTimes nm ops ! j) \<and>
   (playerPublishTimes nm ops \<noteq> [] \<and>
    now - last (playerPublishTimes nm ops) < POSITION_UPDATE_INTERVAL \<longrightarrow>
      updatePlayer (nm_run nm ops) now serverTime player = (nm_run nm ops, [])) \<and>
   (enemyPublishTimes nm ops \<noteq> [] \<and>
    now - last (enemyPublishTimes nm ops) < ENEMY_UPDATE_INTERVAL \<longrightarrow>
      updateEnemies (nm_run nm ops) now serverTime enemies = (nm_run nm ops, [])) \<and>
   (now - lastPositionUpdate nm < POSITION_UPDATE_INTERVAL \<longrightarrow>
      updatePlayer nm now serverTime player = (nm, [])) \<and>
   (\<not> now - lastPositionUpdate nm < POSITION_UPDATE_INTERVAL \<longrightarrow>
      snd (updatePlayer nm now serverTime player) \<noteq> [] \<and>
      lastPositionUpdate (fst (updatePlayer nm now serverTime player)) = now) \<and>
   (now - lastEnemyUpdate nm < ENEMY_UPDATE_INTERVAL \<longrightarrow>
      updateEnemies nm now serverTime enemies = (nm, [])) \<and>
   (isHost nm \<and> \<not> now - lastEnemyUpdate nm < ENEMY_UPDATE_INTERVAL \<longrightarrow>
      snd (updateEnemies nm now serverTime enemies) \<noteq> [] \<and>
      lastEnemyUpdate (fst (updateEnemies nm now serverTime enemies)) = now)"
proof -
  have p: "\<forall>i j. i < j \<and> j < length (playerPublishTimes nm ops) \<longrightarrow>
       playerPublishTimes nm ops ! i + POSITION_UPDATE_INTERVAL \<le> playerPublishTimes nm ops ! j"
    using playerPublishTimes_spaced [of nm ops]
    by (auto simp: sorted_wrt_iff_nth_less POSITION_UPDATE_INTERVAL_def)
  have e: "\<forall>i j. i < j \<and> j < length (enemyPublishTimes nm ops) \<longrightarrow>
       enemyPublishTimes nm ops ! i + ENEMY_UPDATE_INTERVAL \<le> enemyPublishTimes nm ops ! j"
    using enemyPublishTimes_spaced [of nm ops]
    by (auto simp: sorted_wrt_iff_nth_less ENEMY_UPDATE_INTERVAL_def)
  have pl: "playerPublishTimes nm ops \<noteq> [] \<and>
    now - last (playerPublishTimes nm ops) < POSITION_UPDATE_INTERVAL \<longrightarrow>
      updatePlayer (nm_run nm ops) now serverTime player = (nm_run nm ops, [])"
    by (simp add: updatePlayer_def playerPublishTimes_last)
  have el: "enemyPublishTimes nm ops \<noteq> [] \<and>
    now - last (enemyPublishTimes nm ops) < ENEMY_UPDATE_INTERVAL \<longrightarrow>
      updateEnemies (nm_run nm ops) now serverTime enemies = (nm_run nm ops, [])"
    by (simp add: updateEnemies_def enemyPublishTimes_last)
  show ?thesis
    using p e pl el by (simp add: updatePlayer_def updateEnemies_def)
qed

theorem throttle_once_per_interval_witness:
  "playerPublishTimes (newNetworkManager ''r'' ''a'')
     [UpdatePlayer 1000 7 demoPlayer, UpdatePlayer 1020 8 demoPlayer,
      UpdatePlayer 1060 9 demoPlayer] = [1000, 1060] \<and>
   (0::nat) < 1 \<and> (1::nat) < length [1000, 1060 :: int] \<and>
   [1000, 1060 :: int] ! 0 + POSITION_UPDATE_INTERVAL \<le> [1000, 1060] ! 1 \<and>
   1080 - last [1000, 1060 :: int] < POSITION_UPDATE_INTERVAL \<and>
   updatePlayer (nm_run (newNetworkManager ''r'' ''a'')
     [UpdatePlayer 1000 7 demoPlayer, UpdatePlayer 1020 8 demoPlayer,
      UpdatePlayer 1060 9 demoPlayer]) 1080 10 demoPlayer =
   (nm_run (newNetworkManager ''r'' ''a'')
     [UpdatePlayer 1000 7 demoPlayer, UpdatePlayer 1020 8 demoPlayer,
      UpdatePlayer 1060 9 demoPlayer], [])"
proof -
  have pt: "playerPublishTimes (newNetworkManager ''r'' ''a'')
     [UpdatePlayer 1000 7 demoPlayer, UpdatePlayer 1020 8 demoPlayer,
      UpdatePlayer 1060 9 demoPlayer] = [1000, 1060]"
    by (simp add: newNetworkManager_def updatePlayer_def POSITION_UPDATE_INTERVAL_def)
  note th = throttle_once_per_interval [of "newNetworkManager ''r'' ''a''"
        "[UpdatePlayer 1000 7 demoPlayer, UpdatePlayer 1020 8 demoPlayer,
          UpdatePlayer 1060 9 demoPlayer]" 1080 10 demoPlayer "[]", unfolded pt]
  have h1: "(0::nat) < 1 \<and> (1::nat) < length [1000, 1060 :: int]" by simp
  have h2: "[1000, 1060 :: int] \<noteq> [] \<and> 1080 - last [1000, 1060 :: int] < POSITION_UPDATE_INTERVAL"
    by (simp add: POSITION_UPDATE_INTERVAL_def)
  from th have "\<forall>i j. i < j \<and> j < length [1000, 1060 :: int] \<longrightarrow>
      [1000, 1060 :: int] ! i + POSITION_UPDATE_INTERVAL \<le> [1000, 1060] ! j"
    by (rule conjunct1)
  with h1 have a: "[1000, 1060 :: int] ! 0 + POSITION_UPDATE_INTERVAL \<le> [1000, 1060] ! 1"
    by blast
  from th h2 have b: "updatePlayer (nm_run (newNetworkManager ''r'' ''a'')
     [UpdatePlayer 1000 7 demoPlayer, UpdatePlayer 1020 8 demoPlayer,
      UpdatePlayer 1060 9 demoPlayer]) 1080 10 demoPlayer =
   (nm_run (newNetworkManager ''r'' ''a'')
     [UpdatePlayer 1000 7 demoPlayer, UpdatePlayer 1020 8 demoPlayer,
      UpdatePlayer 1060 9 demoPlayer], [])"
    by blast
  from pt h1 h2 a b show ?thesis by blast
qed

subsection \<open>Host election\<close>

text \<open>
  The players subtrees of the remote store, by room id. The store is the external
  collaborator: a write to \<open>players/{id}\<close> sets or (with \<open>null\<close>) removes the record,
  and a subtree without records does not exist.
\<close>

fun apply_write ::
  "(string \<Rightarrow> (string \<times> PlayerData) list) \<Rightarrow> db_write \<Rightarrow> (string \<Rightarrow> (string \<times> PlayerData) list)" where
  "apply_write tree (SetPlayer r p (Some d)) = tree(r := AList.update p d (tree r))"
| "apply_write tree (SetPlayer r p None) = tree(r := AList.delete p (tree r))"
| "apply_write tree (SetEnemies r d) = tree"
| "apply_write tree (PushProjectile r d) = tree"

definition playersSnapshot :: "(string \<times> PlayerData) list \<Rightarrow> (string \<times> PlayerData) list option" where
  "playersSnapshot ps = (if ps = [] then None else Some ps)"

record world =
  w_players :: "string \<Rightarrow> (string \<times> PlayerData) list"
  w_sessions :: "NetworkManager list"

text \<open>
  Session \<open>i\<close> joins: it reads the players subtree of its room, its writes reach the
  store, and the players listeners of the sessions of that room receive the new subtree.
\<close>

definition world_join :: "world \<Rightarrow> nat \<Rightarrow> int \<Rightarrow> int \<Rightarrow> world" where
  "world_join w i serverTime now =
     (if i < length (w_sessions w)
      then
        (case joinRoom (w_sessions w ! i)
                (playersSnapshot (w_players w (roomId (w_sessions w ! i)))) serverTime
         of (nm', ws) \<Rightarrow>
           \<lparr>w_players = foldl apply_write (w_players w) ws,
            w_sessions =
              map (\<lambda>s. if roomId s = roomId nm'
                        then fst (nm_step s
                               (PlayersValue now
                                  (playersSnapshot (foldl apply_write (w_players w) ws (roomId s)))))
                        else s)
                ((w_sessions w)[i := nm'])\<rparr>)
      else w)"

fun isJoin :: "nm_op \<Rightarrow> bool" where
  "isJoin (JoinRoom snapshot serverTime) = True"
| "isJoin a = False"

lemma nm_step_isHost: "\<not> isJoin a \<Longrightarrow> isHost (fst (nm_step nm a)) = isHost nm"
  by (cases a) (auto simp: updatePlayer_def updateEnemies_def leaveRoom_def
      listenForProjectiles_def onPlayersValue_def Let_def split: prod.splits option.splits)

lemma nm_run_isHost: "\<forall>a \<in> set ops. \<not> isJoin a \<Longrightarrow> isHost (nm_run nm ops) = isHost nm"
  by (induction ops arbitrary: nm) (simp_all add: nm_step_isHost)

lemma world_join_other:
  "j < length (w_sessions w) \<Longrightarrow> j \<noteq> i \<Longrightarrow>
     isHost (w_sessions (world_join w i t n) ! j) = isHost (w_sessions w ! j)"
  by (auto simp: world_join_def nm_step_isHost simp del: nm_step.simps split: prod.splits)

lemma world_join_length: "length (w_sessions (world_join w i t n)) = length (w_sessions w)"
  by (auto simp: world_join_def split: prod.splits)

lemma world_join_self:
  "i < length (w_sessions w) \<Longrightarrow>
     isHost (w_sessions (world_join w i t n) ! i) = (w_players w (roomId (w_sessions w ! i)) = [])"
  by (auto simp: world_join_def nm_step_isHost joinRoom_def playersSnapshot_def
      simp del: nm_step.simps split: prod.splits)

lemma world_join_players:
  "i < length (w_sessions w) \<Longrightarrow>
     w_players (world_join w i t n) (roomId (w_sessions w ! i)) \<noteq> []"
  by (auto simp: world_join_def joinRoom_def Let_def split: prod.splits)

lemma nm_step_roomId: "roomId (fst (nm_step nm a)) = roomId nm"
  by (cases a) (auto simp: joinRoom_def updatePlayer_def updateEnemies_def leaveRoom_def
      listenForProjectiles_def onPlayersValue_def Let_def split: prod.splits option.splits)

lemma world_join_roomId:
  "j < length (w_sessions w) \<Longrightarrow> roomId (w_sessions (world_join w i t n) ! j) = roomId (w_sessions w ! j)"
  by (cases "j = i")
     (auto simp: world_join_def nm_step_roomId joinRoom_def Let_def
       simp del: nm_step.simps split: prod.splits)

text \<open>
  C5. A session that joins while the players subtree is absent or empty becomes host; one
  that joins while a player record exists becomes observer; no operation of a session
  other than its join changes its host status; and when three sessions join the same
  empty room one after the other, the first is host, the second and the third are
  observers, and the later joins leave the earlier assignments unchanged.
\<close>

theorem host_election:
  "isHost (fst (joinRoom nm None t)) \<and>
   isHost (fst (joinRoom nm (Some []) t)) \<and>
   (ps \<noteq> [] \<longrightarrow> \<not> isHost (fst (joinRoom nm (Some ps) t))) \<and>
   ((\<forall>a \<in> set ops. \<not> isJoin a) \<longrightarrow> isHost (nm_run nm ops) = isHost nm) \<and>
   (let w0 = \<lparr>w_players = (\<lambda>r. []),
               w_sessions = [newNetworkManager rid p1, newNetworkManager rid p2,
                             newNetworkManager rid p3]\<rparr>;
        w1 = world_join w0 0 t1 n1;
        w2 = world_join w1 1 t2 n2;
        w3 = world_join w2 2 t3 n3
    in isHost (w_sessions w1 ! 0) \<and>
       isHost (w_sessions w2 ! 0) \<and> \<not> isHost (w_sessions w2 ! 1) \<and>
       isHost (w_sessions w3 ! 0) \<and> \<not> isHost (w_sessions w3 ! 1) \<and>
       \<not> isHost (w_sessions w3 ! 2))"
proof -
  define w0 where "w0 = \<lparr>w_players = (\<lambda>r. []),
               w_sessions = [newNetworkManager rid p1, newNetworkManager rid p2,
                             newNetworkManager rid p3]\<rparr>"
  define w1 where "w1 = world_join w0 0 t1 n1"
  define w2 where "w2 = world_join w1 1 t2 n2"
  define w3 where "w3 = world_join w2 2 t3 n3"
  have len: "length (w_sessions w0) = 3" "length (w_sessions w1) = 3"
    "length (w_sessions w2) = 3"
    by (simp_all add: w0_def w1_def w2_def world_join_length)
  have rooms0: "roomId (w_sessions w0 ! j) = rid" if "j < 3" for j
    using that by (auto simp: w0_def newNetworkManager_def nth_Cons split: nat.splits)
  have rooms1: "roomId (w_sessions w1 ! j) = rid" if "j < 3" for j
    using that rooms0 len by (simp add: w1_def world_join_roomId)
  have rooms2: "roomId (w_sessions w2 ! j) = rid" if "j < 3" for j
    using that rooms1 len by (simp add: w2_def world_join_roomId)
  have h1: "isHost (w_sessions w1 ! 0)"
    unfolding w1_def using len by (simp add: world_join_self) (simp add: w0_def)
  have p1: "w_players w1 rid \<noteq> []"
    using world_join_players [of 0 w0 t1 n1] len rooms0 [of 0] by (simp add: w1_def)
  have h20: "isHost (w_sessions w2 ! 0)"
    unfolding w2_def using len h1 by (simp add: world_join_other)
  have h21: "\<not> isHost (w_sessions w2 ! 1)"
    unfolding w2_def using len p1 rooms1 [of 1] by (simp add: world_join_self)
  have p2: "w_players w2 rid \<noteq> []"
    using world_join_players [of 1 w1 t2 n2] len rooms1 [of 1] by (simp add: w2_def)
  have h30: "isHost (w_sessions w3 ! 0)"
    unfolding w3_def using len h20 by (simp add: world_join_other)
  have h31: "\<not> isHost (w_sessions w3 ! 1)"
    unfolding w3_def using len h21 by (simp add: world_join_other)
  have h32: "\<not> isHost (w_sessions w3 ! 2)"
    unfolding w3_def using len p2 rooms2 [of 2] by (simp add: world_join_self)
  have scen: "isHost (w_sessions w1 ! 0) \<and>
       isHost (w_sessions w2 ! 0) \<and> \<not> isHost (w_sessions w2 ! 1) \<and>
       isHost (w_sessions w3 ! 0) \<and> \<not> isHost (w_sessions w3 ! 1) \<and>
       \<not> isHost (w_sessions w3 ! 2)"
    using h1 h20 h21 h30 h31 h32 by simp
  have j: "isHost (fst (joinRoom nm None t)) \<and>
   isHost (fst (joinRoom nm (Some []) t)) \<and>
   (ps \<noteq> [] \<longrightarrow> \<not> isHost (fst (joinRoom nm (Some ps) t)))"
    by (simp add: joinRoom_def)
  have r: "(\<forall>a \<in> set ops. \<not> isJoin a) \<longrightarrow> isHost (nm_run nm ops) = isHost nm"
    by (simp add: nm_run_isHost)
  from j r scen show ?thesis
    unfolding Let_def w0_def [symmetric] w1_def [symmetric] w2_def [symmetric]
      w3_def [symmetric]
    by simp
qed

definition demoRecord :: PlayerData where
  "demoRecord = \<lparr>pd_id = ''a'', pd_x = Finite 0, pd_y = Finite 0, pd_health = Finite 100,
                  pd_currentAnim = None,
                  pd_facingX = None, pd_facingY = None, pd_joinedAt = Some 5,
                  pd_timestamp = None\<rparr>"

theorem host_election_witness:
  "[(''a'', demoRecord)] \<noteq> [] \<and> \<not> isHost (fst (joinRoom (newNetworkManager ''r'' ''b'') (Some [(''a'', demoRecord)]) 5)) \<and>
   \<not> isJoin (UpdatePlayer 1000 7 demoPlayer) \<and>
   \<not> isJoin (PlayersValue 1001 (Some [(''b'', demoRecord)])) \<and> \<not> isJoin LeaveRoom \<and>
   isHost (nm_run (fst (joinRoom (newNetworkManager ''r'' ''a'') None 5))
            [UpdatePlayer 1000 7 demoPlayer, PlayersValue 1001 (Some [(''b'', demoRecord)]), LeaveRoom])"
proof -
  have h: "\<forall>a \<in> set [UpdatePlayer 1000 7 demoPlayer, PlayersValue 1001 (Some [(''b'', demoRecord)]), LeaveRoom].
      \<not> isJoin a"
    by simp
  have n: "[(''a'', demoRecord)] \<noteq> []" by simp
  note th = host_election [of "newNetworkManager ''r'' ''b''" 5 "[(''a'', demoRecord)]"]
  note th2 = host_election [of "fst (joinRoom (newNetworkManager ''r'' ''a'') None 5)" 5 "[]"
      "[UpdatePlayer 1000 7 demoPlayer, PlayersValue 1001 (Some [(''b'', demoRecord)]), LeaveRoom]"]
  from th n have a: "\<not> isHost (fst (joinRoom (newNetworkManager ''r'' ''b'') (Some [(''a'', demoRecord)]) 5))"
    by blast
  from th2 h have "isHost (nm_run (fst (joinRoom (newNetworkManager ''r'' ''a'') None 5))
            [UpdatePlayer 1000 7 demoPlayer, PlayersValue 1001 (Some [(''b'', demoRecord)]), LeaveRoom]) =
      isHost (fst (joinRoom (newNetworkManager ''r'' ''a'') None 5))"
    by blast
  moreover have "isHost (fst (joinRoom (newNetworkManager ''r'' ''a'') None 5))"
    by (simp add: joinRoom_def)
  ultimately show ?thesis using a n by simp
qed

subsection \<open>A target that is out of bounds or solid\<close>

lemma calculateFlowField_same: "calculateFlowField f (target f) m = f"
  by (simp add: calculateFlowField_def)

lemma index_in_range:
  "0 \<le> x \<Longrightarrow> x < c \<Longrightarrow> 0 \<le> y \<Longrightarrow> y < r \<Longrightarrow> 0 \<le> y * c + x \<and> y * c + x < c * r" for x y c r :: int
proof -
  assume a: "0 \<le> x" "x < c" "0 \<le> y" "y < r"
  then have "y + 1 \<le> r" by simp
  then have "(y + 1) * c \<le> r * c" using a by (intro mult_right_mono) auto
  then show ?thesis using a by (auto simp: algebra_simps)
qed

text \<open>
  C9. When \<open>calculateFlowField\<close> is called with a target that differs from the stored
  one and is out of bounds or solid, every entry of the distances grid becomes the sentinel
  and the stored target is not updated; every distance query then returns the sentinel;
  and a later call that requests the stored target returns at the cache check, computes
  nothing and leaves the all-sentinel grid in place. (The grid has \<open>cols * rows\<close> entries
  and the sentinel fits sixteen bits.)
\<close>

theorem flowField_invalid_target:
  assumes differs: "target ff \<noteq> tgt"
    and invalid: "\<not> isValidTile m (fst tgt) (snd tgt) \<or> isSolid m (fst tgt) (snd tgt)"
    and len: "int (length (distances ff)) = ff_cols ff * ff_rows ff"
    and mx: "0 \<le> MAX_DISTANCE ff" "MAX_DISTANCE ff \<le> 65535"
  shows "distances (calculateFlowField ff tgt m) =
           replicate (length (distances ff)) (word_of_int (MAX_DISTANCE ff)) \<and>
         target (calculateFlowField ff tgt m) = target ff \<and>
         (\<forall>x y. getFlowFieldDistance (calculateFlowField ff tgt m) x y = Some (MAX_DISTANCE ff)) \<and>
         calculateFlowField (calculateFlowField ff tgt m) (target ff) m' =
           calculateFlowField ff tgt m \<and>
         (\<forall>x y. getFlowFieldDistance
                   (calculateFlowField (calculateFlowField ff tgt m) (target ff) m') x y =
                 Some (MAX_DISTANCE ff))"
proof -
  let ?ff = "calculateFlowField ff tgt m"
  have eq: "?ff = ff\<lparr>distances := ta_fill (distances ff) (MAX_DISTANCE ff)\<rparr>"
  proof -
    from differs have "\<not> (fst (target ff) = fst tgt \<and> snd (target ff) = snd tgt)"
      by (simp add: prod_eq_iff)
    with invalid show ?thesis unfolding calculateFlowField_def by (simp only: if_False if_True)
  qed
  have d: "distances ?ff = replicate (length (distances ff)) (word_of_int (MAX_DISTANCE ff))"
    by (simp add: eq ta_fill_def map_replicate_const)
  have t: "target ?ff = target ff" by (simp add: eq)
  have q: "getFlowFieldDistance ?ff x y = Some (MAX_DISTANCE ff)" for x y
  proof (cases "x < 0 \<or> x \<ge> ff_cols ff \<or> y < 0 \<or> y \<ge> ff_rows ff")
    case True
    then show ?thesis by (auto simp: getFlowFieldDistance_def eq)
  next
    case False
    define i where "i = y * ff_cols ff + x"
    from False have "0 \<le> i \<and> i < ff_cols ff * ff_rows ff"
      unfolding i_def by (intro index_in_range) auto
    with len have r: "0 \<le> i" "i < int (length (distances ff))" by simp_all
    then have n: "nat i < length (distances ff)" by (simp add: nat_less_iff)
    have "getFlowFieldDistance ?ff x y = ta_get (ta_fill (distances ff) (MAX_DISTANCE ff)) i"
      using False by (simp add: getFlowFieldDistance_def eq i_def)
    also have "\<dots> = Some (uint (word_of_int (MAX_DISTANCE ff) :: 16 word))"
      using r n by (simp add: ta_get_def ta_fill_def)
    also have "\<dots> = Some (MAX_DISTANCE ff)"
      using mx by (simp only: uint_word16)
    finally show ?thesis .
  qed
  have s: "calculateFlowField ?ff (target ff) m' = ?ff"
    using calculateFlowField_same [of ?ff m'] by (simp only: t)
  from q have q': "\<forall>x y. getFlowFieldDistance ?ff x y = Some (MAX_DISTANCE ff)" by blast
  from q' s have q'': "\<forall>x y. getFlowFieldDistance (calculateFlowField ?ff (target ff) m') x y =
      Some (MAX_DISTANCE ff)" by simp
  from d t q' s q'' show ?thesis by blast
qed


text \<open>The field of \<open>corridor3\<close> after a computation with target \<open>(0, 0)\<close>.\<close>

definition field3 :: FlowField where
  "field3 = \<lparr>distances = [0, 1, 65535], target = (0, 0), ff_cols = 3, ff_rows = 1,
              MAX_DISTANCE = 65535\<rparr>"

theorem flowField_invalid_target_witness:
  "target field3 \<noteq> (2, 0) \<and>
   isSolid corridor3 2 0 \<and>
   int (length (distances field3)) = ff_cols field3 * ff_rows field3 \<and>
   0 \<le> MAX_DISTANCE field3 \<and> MAX_DISTANCE field3 \<le> 65535 \<and>
   distances (calculateFlowField field3 (2, 0) corridor3) = [65535, 65535, 65535] \<and>
   target (calculateFlowField field3 (2, 0) corridor3) = (0, 0) \<and>
   getFlowFieldDistance (calculateFlowField field3 (2, 0) corridor3) 0 0 = Some 65535 \<and>
   calculateFlowField (calculateFlowField field3 (2, 0) corridor3) (0, 0) corridor3 =
     calculateFlowField field3 (2, 0) corridor3"
proof -
  have h1: "target field3 \<noteq> (2, 0)" by (simp add: field3_def)
  have h2: "\<not> isValidTile corridor3 (fst (2, 0)) (snd (2, 0)) \<or>
            isSolid corridor3 (fst (2, 0)) (snd (2, 0))"
    by (simp add: isSolid_def getTile_def corridor3_def)
  have h3: "int (length (distances field3)) = ff_cols field3 * ff_rows field3"
    by (simp add: field3_def)
  have h4: "0 \<le> MAX_DISTANCE field3" "MAX_DISTANCE field3 \<le> 65535"
    by (simp_all add: field3_def)
  note th = flowField_invalid_target [OF h1 h2 h3 h4, of corridor3]
  have t: "target field3 = (0, 0)" and mx: "MAX_DISTANCE field3 = 65535"
    and r: "replicate (length (distances field3)) (word_of_int (MAX_DISTANCE field3) :: 16 word)
            = [65535, 65535, 65535]"
    by (simp_all add: field3_def)
  from th have "distances (calculateFlowField field3 (2, 0) corridor3) = [65535, 65535, 65535]"
    unfolding r by (rule conjunct1)
  moreover from th have "target (calculateFlowField field3 (2, 0) corridor3) = (0, 0)"
    unfolding t by blast
  moreover from th have "getFlowFieldDistance (calculateFlowField field3 (2, 0) corridor3) 0 0 = Some 65535"
    unfolding mx by blast
  moreover from th have "calculateFlowField (calculateFlowField field3 (2, 0) corridor3) (0, 0) corridor3 =
     calculateFlowField field3 (2, 0) corridor3"
    unfolding t by blast
  moreover have "isSolid corridor3 2 0"
    by (simp add: isSolid_def getTile_def corridor3_def)
  ultimately show ?thesis using h1 h3 h4 by blast
qed

subsection \<open>The cached next step\<close>

text \<open>
  The walking index finds the current tile at position \<open>i\<close>: the first position at or
  after \<open>currentIndex\<close> and before the last tile of the path that holds it.
\<close>

definition locatedAt :: "CachedPath \<Rightarrow> TilePosition list \<Rightarrow> int \<Rightarrow> int \<Rightarrow> nat \<Rightarrow> bool" where
  "locatedAt c p cx cy i \<longleftrightarrow>
     currentIndex c \<le> i \<and> i + 1 < length p \<and> p ! i = (cx, cy) \<and>
     (\<forall>j. currentIndex c \<le> j \<and> j < i \<longrightarrow> p ! j \<noteq> (cx, cy))"

definition cache01 :: CachedPath where
  "cache01 = \<lparr>path = Some [(0, 0), (1, 0)], currentIndex = 0, targetX = 1, targetY = 0\<rparr>"

lemma seekCurrent_hit:
  "k \<le> i \<Longrightarrow> i + 1 < length p \<Longrightarrow> p ! i = (cx, cy) \<Longrightarrow>
   (\<forall>j. k \<le> j \<and> j < i \<longrightarrow> p ! j \<noteq> (cx, cy)) \<Longrightarrow>
   seekCurrent p k cx cy = (Some (p ! (i + 1)), i)"
proof (induction "i - k" arbitrary: k)
  case 0
  then have "k = i" by simp
  moreover have "seekCurrent p i cx cy = (Some (p ! (i + 1)), i)"
    using 0 by (intro seekCurrent_found_first) auto
  ultimately show ?case by simp
next
  case (Suc d)
  then have "k < i" by simp
  with Suc.prems have ne: "p ! k \<noteq> (cx, cy)" by simp
  have "seekCurrent p (k + 1) cx cy = (Some (p ! (i + 1)), i)"
    using Suc.prems Suc.hyps(2) \<open>k < i\<close> by (intro Suc.hyps(1)) auto
  moreover have "int k < int (length p) - 1" using Suc.prems \<open>k < i\<close> by simp
  ultimately show ?case using ne
    by (subst seekCurrent.simps) (auto simp: prod_eq_iff)
qed

lemma seekCurrent_miss:
  "seekCurrent p k cx cy = (None, e) \<Longrightarrow> k \<le> i \<Longrightarrow> i + 1 < length p \<Longrightarrow> p ! i \<noteq> (cx, cy)"
proof (induction p k cx cy rule: seekCurrent.induct)
  case (1 p k cx cy)
  from "1.prems" have lt: "int k < int (length p) - 1" by simp
  from "1.prems"(1) lt have ne: "\<not> (fst (p ! k) = cx \<and> snd (p ! k) = cy)"
    by (subst (asm) seekCurrent.simps) (auto split: if_splits)
  with "1.prems"(1) lt have r: "seekCurrent p (k + 1) cx cy = (None, e)"
    by (subst (asm) seekCurrent.simps) (auto split: if_splits)
  show ?case
  proof (cases "i = k")
    case True
    with ne show ?thesis by (auto simp: prod_eq_iff)
  next
    case False
    with "1.prems" have "k + 1 \<le> i" by simp
    from "1.IH" [OF lt ne r this "1.prems"(3)] show ?thesis .
  qed
qed

lemma no_recalculation:
  "\<not> mustRecalculate c tx ty f \<Longrightarrow> recalculated c cx cy tx ty m f = c"
  by (simp add: recalculated_def)

lemma getNextStep_located:
  assumes "\<not> mustRecalculate c tx ty f" and "path c = Some p" and "locatedAt c p cx cy i"
  shows "getNextStep c cx cy tx ty m f = (Some (p ! (i + 1)), c\<lparr>currentIndex := i\<rparr>, 0)"
proof -
  from assms(3) have s: "seekCurrent p (currentIndex c) cx cy = (Some (p ! (i + 1)), i)"
    unfolding locatedAt_def by (intro seekCurrent_hit) auto
  from assms(3) have "\<not> length p < 2" unfolding locatedAt_def by simp
  then show ?thesis
    using assms(1,2) s
    by (subst getNextStep.simps) (simp add: no_recalculation)
qed

lemma getNextStep_searches:
  assumes "\<not> mustRecalculate c tx ty f" and "path c = Some p"
    and "snd (snd (getNextStep c cx cy tx ty m f)) \<noteq> 0"
  shows "\<forall>i. currentIndex c \<le> i \<and> i + 1 < length p \<longrightarrow> p ! i \<noteq> (cx, cy)"
proof (cases "length p < 2")
  case True
  then show ?thesis by auto
next
  case False
  obtain r e where s: "seekCurrent p (currentIndex c) cx cy = (r, e)" by (metis surj_pair)
  show ?thesis
  proof (cases r)
    case None
    with s show ?thesis using seekCurrent_miss by blast
  next
    case (Some t)
    with s assms False have "snd (snd (getNextStep c cx cy tx ty m f)) = 0"
      by (subst getNextStep.simps) (simp add: no_recalculation)
    with assms(3) show ?thesis by simp
  qed
qed

text \<open>
  C7 (as amended). \<open>getNextStep\<close> performs a new search only when the caller forces
  it, the requested target differs from the stored one, the cache is empty, or the current
  tile does not occur in the cached path at or after the walking index and before the last
  tile; in every other case it performs no search, returns the tile that follows the first
  such occurrence and leaves the walking index there.
\<close>

theorem cached_next_step:
  "forceRecalculate \<or> targetX c \<noteq> tx \<or> targetY c \<noteq> ty \<or> path c = None \<or>
   (\<exists>p. path c = Some p \<and> (\<forall>i. \<not> locatedAt c p cx cy i)) \<or>
   (\<exists>p i. path c = Some p \<and> locatedAt c p cx cy i \<and>
      getNextStep c cx cy tx ty m forceRecalculate =
        (Some (p ! (i + 1)), c\<lparr>currentIndex := i\<rparr>, 0))"
proof (cases "forceRecalculate \<or> targetX c \<noteq> tx \<or> targetY c \<noteq> ty \<or> path c = None")
  case True
  then show ?thesis by blast
next
  case False
  then obtain p where p: "path c = Some p" by auto
  show ?thesis
  proof (cases "\<exists>i. locatedAt c p cx cy i")
    case False
    with p show ?thesis by blast
  next
    case True
    then obtain i where i: "locatedAt c p cx cy i" by blast
    then have "currentIndex c < length p" unfolding locatedAt_def by simp
    with \<open>\<not> (forceRecalculate \<or> targetX c \<noteq> tx \<or> targetY c \<noteq> ty \<or> path c = None)\<close> p
    have "\<not> mustRecalculate c tx ty forceRecalculate"
      by (simp add: mustRecalculate_def)
    from getNextStep_located [OF this p i] p i show ?thesis by blast
  qed
qed

lemma corridor3_tiles:
  "\<not> isSolid corridor3 0 0" "\<not> isSolid corridor3 1 0" "isSolid corridor3 2 0"
  "isValidTile corridor3 0 0" "isValidTile corridor3 1 0"
  "\<not> isValidTile corridor3 0 (- 1)" "\<not> isValidTile corridor3 0 1" "\<not> isValidTile corridor3 (- 1) 0"
  by (simp_all add: isSolid_def getTile_def corridor3_def isValidTile_def)

lemma findPath_arrived: "findPath 1 0 1 0 corridor3 500 = Some [(1, 0)]"
  by (simp add: findPath_def findPath_run_def corridor3_tiles)

lemma seek01: "seekCurrent [(0, 0), (1, 0)] 0 1 0 = (None, 1)"
  by (simp add: seekCurrent.simps)

lemma getNextStep_arrival:
  "getNextStep cache01 1 0 1 0 corridor3 False =
     (None, \<lparr>path = Some [(1, 0)], currentIndex = 0, targetX = 1, targetY = 0\<rparr>, 1)"
proof -
  have a: "\<not> mustRecalculate cache01 1 0 False"
    by (simp add: mustRecalculate_def cache01_def)
  have b: "getNextStep (cache01\<lparr>currentIndex := Suc 0\<rparr>) 1 0 1 0 corridor3 True =
     (None, \<lparr>path = Some [(1, 0)], currentIndex = 0, targetX = 1, targetY = 0\<rparr>, 1)"
    by (subst getNextStep.simps)
       (simp add: recalculated_def mustRecalculate_def findPath_arrived cache01_def)
  have r: "recalculated cache01 1 0 1 0 corridor3 False = cache01"
    using a by (rule no_recalculation)
  have p: "path cache01 = Some [(0, 0), (1, 0)]" and ci: "currentIndex cache01 = 0"
    by (simp_all add: cache01_def)
  show ?thesis
    by (subst getNextStep.simps) (simp add: r p ci a seek01 b)
qed

lemma findPath_01: "findPath 0 0 1 0 corridor3 500 = Some [(0, 0), (1, 0)]"
  by (simp add: findPath_def findPath_run_def corridor3_tiles astar_loop.simps expand_def
      neighbors_def visitNeighbor_def heuristic_def reconstructPath_def)

lemma getNextStep_forced:
  "getNextStep cache01 0 0 1 0 corridor3 True = (Some (1, 0), cache01, 1)"
proof -
  have a: "mustRecalculate cache01 1 0 True" by (simp add: mustRecalculate_def)
  have r: "recalculated cache01 0 0 1 0 corridor3 True = cache01"
    by (simp add: recalculated_def a findPath_01 cache01_def)
  have p: "path cache01 = Some [(0, 0), (1, 0)]" and ci: "currentIndex cache01 = 0"
    by (simp_all add: cache01_def)
  have s: "seekCurrent [(0, 0), (1, 0)] 0 0 0 = (Some (1, 0), 0)"
    by (simp add: seekCurrent.simps)
  have u: "cache01\<lparr>currentIndex := 0\<rparr> = cache01" by (simp add: cache01_def)
  show ?thesis
    by (subst getNextStep.simps) (simp add: r p ci a s u)
qed


theorem cached_next_step_witness:
  "getNextStep cache01 0 0 1 0 corridor3 False = (Some (1, 0), cache01, 0)"
proof -
  have l: "locatedAt cache01 [(0, 0), (1, 0)] 0 0 i \<longleftrightarrow> i = 0" for i
    by (auto simp: locatedAt_def cache01_def)
  have u: "cache01\<lparr>currentIndex := 0\<rparr> = cache01" by (simp add: cache01_def)
  have p: "path cache01 = Some [(0, 0), (1, 0)]" "targetX cache01 = 1" "targetY cache01 = 0"
    by (simp_all add: cache01_def)
  from cached_next_step [where forceRecalculate = False and c = cache01 and tx = 1 and ty = 0
      and cx = 0 and cy = 0 and m = corridor3]
  show ?thesis by (auto simp add: p l u)
qed

text \<open>
  C7 as stated fails: with the stored target requested again, a non-empty cache and the
  current tile in the remaining cached suffix, a search is still made when the current tile
  is the last tile of the cached path (the agent has arrived), and when the caller passes
  \<open>forceRecalculate\<close>.
\<close>

theorem cached_next_step_counterexample:
  "targetX cache01 = 1 \<and> targetY cache01 = 0 \<and> path cache01 = Some [(0, 0), (1, 0)] \<and>
   (1, 0) \<in> set (drop (currentIndex cache01) [(0, 0), (1, 0)]) \<and>
   getNextStep cache01 1 0 1 0 corridor3 False =
     (None, \<lparr>path = Some [(1, 0)], currentIndex = 0, targetX = 1, targetY = 0\<rparr>, 1) \<and>
   (0, 0) \<in> set (drop (currentIndex cache01) [(0, 0), (1, 0)]) \<and>
   getNextStep cache01 0 0 1 0 corridor3 True = (Some (1, 0), cache01, 1)"
  by (simp add: getNextStep_arrival getNextStep_forced) (simp add: cache01_def)

section \<open>Exactness of the flow field\<close>

text \<open>
  A tile is passable when it is inside the map and not solid. \<open>walk m g n t\<close>: from
  \<open>t\<close> the tile \<open>g\<close> is reached in \<open>n\<close> moves between 4-adjacent passable tiles.
  \<open>shortest m g t d\<close>: \<open>d\<close> is the length of a shortest such walk.
\<close>

definition passable :: "TileMap \<Rightarrow> TilePosition \<Rightarrow> bool" where
  "passable m t \<longleftrightarrow> isValidTile m (fst t) (snd t) \<and> \<not> isSolid m (fst t) (snd t)"

inductive walk :: "TileMap \<Rightarrow> TilePosition \<Rightarrow> nat \<Rightarrow> TilePosition \<Rightarrow> bool" for m g where
  walk_here: "passable m g \<Longrightarrow> walk m g 0 g"
| walk_step: "walk m g n u \<Longrightarrow> u \<in> set (neighbors (fst t) (snd t)) \<Longrightarrow> passable m t \<Longrightarrow>
              walk m g (Suc n) t"

definition shortest :: "TileMap \<Rightarrow> TilePosition \<Rightarrow> TilePosition \<Rightarrow> nat \<Rightarrow> bool" where
  "shortest m g t d \<longleftrightarrow> walk m g d t \<and> (\<forall>n. walk m g n t \<longrightarrow> d \<le> n)"

text \<open>The entry of the distances grid that belongs to a tile.\<close>

definition lab :: "int \<Rightarrow> 16 word list \<Rightarrow> TilePosition \<Rightarrow> int option" where
  "lab c ds t = ta_get ds (snd t * c + fst t)"

lemma neighbors_sym:
  "u \<in> set (neighbors (fst t) (snd t)) \<longleftrightarrow> t \<in> set (neighbors (fst u) (snd u))"
  by (cases u; cases t) (auto simp: neighbors_def)

lemma walk_passable: "walk m g n t \<Longrightarrow> passable m t"
  by (induction rule: walk.induct) auto

lemma walk_goal_passable: "walk m g n t \<Longrightarrow> passable m g"
  by (induction rule: walk.induct) auto

inductive_cases walk_0E: "walk m g 0 t"

inductive_cases walk_SucE: "walk m g (Suc n) t"

lemma walk_0: "walk m g 0 t \<longleftrightarrow> t = g \<and> passable m g"
  by (auto elim: walk_0E intro: walk.intros)

lemma walk_Suc:
  "walk m g (Suc n) t \<longleftrightarrow>
     passable m t \<and> (\<exists>u. walk m g n u \<and> u \<in> set (neighbors (fst t) (snd t)))"
  by (blast elim: walk_SucE intro: walk.intros)

lemma index_inj:
  fixes c :: int
  assumes "0 \<le> x" "x < c" "0 \<le> x'" "x' < c" "y * c + x = y' * c + x'"
  shows "x = x' \<and> y = y'"
proof -
  have "(y * c + x) mod c = x mod c" "(y' * c + x') mod c = x' mod c"
    by (rule mod_mult_self3)+
  moreover have "x mod c = x" "x' mod c = x'"
    using assms by (simp_all only: mod_pos_pos_trivial)
  ultimately have "(y * c + x) mod c = x" "(y' * c + x') mod c = x'"
    by (simp_all only:)
  with assms(5) have x: "x = x'" by simp
  with assms have "y * c = y' * c" by simp
  with assms have "y = y'" by simp
  with x show ?thesis by simp
qed

lemma tile_index_inj:
  assumes "isValidTile m (fst t) (snd t)" "isValidTile m (fst u) (snd u)"
    and "snd t * cols m + fst t = snd u * cols m + fst u"
  shows "t = u"
  using index_inj [of "fst t" "cols m" "fst u" "snd t" "snd u"] assms
  by (auto simp: isValidTile_def prod_eq_iff)

lemma tile_index_range:
  assumes "isValidTile m (fst t) (snd t)"
  shows "0 \<le> snd t * cols m + fst t \<and> snd t * cols m + fst t < cols m * rows m"
  using assms index_in_range [of "fst t" "cols m" "snd t" "rows m"]
  by (simp add: isValidTile_def)

lemma ta_get_set_same:
  "0 \<le> i \<Longrightarrow> i < int (length ds) \<Longrightarrow> 0 \<le> v \<Longrightarrow> v \<le> 65535 \<Longrightarrow>
     ta_get (ta_set ds i v) i = Some v"
  by (simp add: ta_get_def ta_set_def uint_word16)

lemma ta_get_set_other: "i \<noteq> j \<Longrightarrow> ta_get (ta_set ds i v) j = ta_get ds j"
  by (auto simp: ta_get_def ta_set_def nat_eq_iff)

lemma length_ta_set [simp]: "length (ta_set ds i v) = length ds"
  by (simp add: ta_set_def)

lemma length_ta_fill [simp]: "length (ta_fill ds v) = length ds"
  by (simp add: ta_fill_def)

lemma ta_get_fill:
  "0 \<le> i \<Longrightarrow> i < int (length ds) \<Longrightarrow> 0 \<le> v \<Longrightarrow> v \<le> 65535 \<Longrightarrow> ta_get (ta_fill ds v) i = Some v"
  by (simp add: ta_get_def ta_fill_def uint_word16 nat_less_iff)

lemma ta_get_bounds: "ta_get ds i = Some v \<Longrightarrow> 0 \<le> v \<and> v \<le> 65535 \<and> 0 \<le> i \<and> i < int (length ds)"
proof -
  assume a: "ta_get ds i = Some v"
  then have r: "0 \<le> i" "i < int (length ds)" and v: "v = uint (ds ! nat i)"
    by (auto simp: ta_get_def split: if_splits)
  have "uint (ds ! nat i) < 2 ^ 16" using uint_lt2p [of "ds ! nat i"] by simp
  with r v show ?thesis by simp
qed

abbreviation etile :: "int \<times> int \<times> nat \<Rightarrow> TilePosition" where
  "etile e \<equiv> (fst e, fst (snd e))"

abbreviation edist :: "int \<times> int \<times> nat \<Rightarrow> nat" where
  "edist e \<equiv> snd (snd e)"

text \<open>
  The invariant of the breadth-first loop, for the sentinel \<open>M\<close>, the target \<open>g\<close>, the
  distances \<open>ds\<close>, the queue \<open>q\<close> and the queue index \<open>qi\<close>:
  every stored value is at most \<open>M\<close>; a queue entry is a passable tile that holds its
  \<open>dist\<close>, which is below \<open>M\<close> and the length of a walk; the queue is ordered by
  \<open>dist\<close> and no entry is more than one ahead of the entry at \<open>qi\<close>; every tile with
  a value below \<open>M\<close> is in the queue; and around an entry before \<open>qi\<close> every passable
  neighbour holds at most one more than the entry, unless that would reach \<open>M\<close>.
\<close>

definition inv_bound :: "TileMap \<Rightarrow> int \<Rightarrow> 16 word list \<Rightarrow> bool" where
  "inv_bound m M ds \<longleftrightarrow>
     int (length ds) = cols m * rows m \<and>
     (\<forall>t. isValidTile m (fst t) (snd t) \<longrightarrow> (\<exists>v. lab (cols m) ds t = Some v \<and> v \<le> M))"

definition inv_queue ::
  "TileMap \<Rightarrow> int \<Rightarrow> TilePosition \<Rightarrow> 16 word list \<Rightarrow> (int \<times> int \<times> nat) list \<Rightarrow> bool" where
  "inv_queue m M g ds q \<longleftrightarrow>
     (\<forall>e \<in> set q. passable m (etile e) \<and> lab (cols m) ds (etile e) = Some (int (edist e)) \<and>
        int (edist e) < M \<and> walk m g (edist e) (etile e))"

definition inv_sorted :: "(int \<times> int \<times> nat) list \<Rightarrow> nat \<Rightarrow> bool" where
  "inv_sorted q qi \<longleftrightarrow>
     sorted (map edist q) \<and> (qi < length q \<longrightarrow> (\<forall>e \<in> set q. edist e \<le> edist (q ! qi) + 1))"

definition inv_labeled :: "TileMap \<Rightarrow> int \<Rightarrow> 16 word list \<Rightarrow> (int \<times> int \<times> nat) list \<Rightarrow> bool" where
  "inv_labeled m M ds q \<longleftrightarrow>
     (\<forall>t v. isValidTile m (fst t) (snd t) \<and> lab (cols m) ds t = Some v \<and> v < M \<longrightarrow>
        (fst t, snd t, nat v) \<in> set q)"

definition entry_done :: "TileMap \<Rightarrow> int \<Rightarrow> 16 word list \<Rightarrow> int \<times> int \<times> nat \<Rightarrow> bool" where
  "entry_done m M ds e \<longleftrightarrow>
     (\<forall>u \<in> set (neighbors (fst e) (fst (snd e))).
        passable m u \<and> int (edist e) + 1 < M \<longrightarrow>
        (\<exists>v. lab (cols m) ds u = Some v \<and> v \<le> int (edist e) + 1))"

definition bfs_inv ::
  "TileMap \<Rightarrow> int \<Rightarrow> TilePosition \<Rightarrow> 16 word list \<Rightarrow> (int \<times> int \<times> nat) list \<Rightarrow> nat \<Rightarrow> bool" where
  "bfs_inv m M g ds q qi \<longleftrightarrow>
     qi \<le> length q \<and> q \<noteq> [] \<and> q ! 0 = (fst g, snd g, 0) \<and>
     inv_bound m M ds \<and> inv_queue m M g ds q \<and> inv_sorted q qi \<and> inv_labeled m M ds q \<and>
     (\<forall>i < qi. entry_done m M ds (q ! i))"

text \<open>Stored values only decrease.\<close>

definition below :: "int \<Rightarrow> 16 word list \<Rightarrow> 16 word list \<Rightarrow> bool" where
  "below c ds' ds \<longleftrightarrow>
     length ds' = length ds \<and>
     (\<forall>t v. lab c ds t = Some v \<longrightarrow> (\<exists>v'. lab c ds' t = Some v' \<and> v' \<le> v))"

lemma below_refl: "below c ds ds"
  by (simp add: below_def)

lemma below_trans: "below c ds'' ds' \<Longrightarrow> below c ds' ds \<Longrightarrow> below c ds'' ds"
  unfolding below_def by (metis order_trans)

lemma entry_done_below: "entry_done m M ds e \<Longrightarrow> below (cols m) ds' ds \<Longrightarrow> entry_done m M ds' e"
  unfolding entry_done_def below_def by (metis order_trans)

lemma valid_lab:
  assumes "inv_bound m M ds" "isValidTile m (fst t) (snd t)"
  obtains v where "lab (cols m) ds t = Some v" "v \<le> M" "0 \<le> v"
proof -
  from assms obtain v where v: "lab (cols m) ds t = Some v" "v \<le> M"
    unfolding inv_bound_def by blast
  then have "0 \<le> v" using ta_get_bounds [of ds _ v] by (simp add: lab_def)
  with v that show ?thesis by blast
qed

text \<open>A visit that changes nothing.\<close>

lemma visit_unchanged:
  assumes inv: "inv_bound m M ds"
    and same: "visitFlowNeighbor m (cols m) d (ds, q) nb = (ds, q)"
  shows "passable m nb \<longrightarrow> (\<exists>v. lab (cols m) ds nb = Some v \<and> v \<le> int d + 1)"
proof
  assume p: "passable m nb"
  then have valid: "isValidTile m (fst nb) (snd nb)" by (simp add: passable_def)
  from valid_lab [OF inv valid] obtain old where old: "lab (cols m) ds nb = Some old" by blast
  have "\<not> int (d + 1) < old"
  proof
    assume "int (d + 1) < old"
    with p old have "visitFlowNeighbor m (cols m) d (ds, q) nb =
       (ta_set ds (snd nb * cols m + fst nb) (int (d + 1)), q @ [(fst nb, snd nb, d + 1)])"
      by (simp add: visitFlowNeighbor_def passable_def lab_def)
    with same show False by simp
  qed
  with old show "\<exists>v. lab (cols m) ds nb = Some v \<and> v \<le> int d + 1" by simp
qed

lemma visit_cases:
  "visitFlowNeighbor m c d (ds, q) nb = (ds, q) \<or>
   (passable m nb \<and> (\<exists>old. lab c ds nb = Some old \<and> int (d + 1) < old) \<and>
    visitFlowNeighbor m c d (ds, q) nb =
      (ta_set ds (snd nb * c + fst nb) (int (d + 1)), q @ [(fst nb, snd nb, d + 1)]))"
  by (auto simp: visitFlowNeighbor_def passable_def lab_def split: option.splits)

text \<open>A visit that stores a new value and pushes the neighbour.\<close>

lemma visit_push:
  assumes inv: "bfs_inv m M g ds q qi" and qi: "qi < length q" and M: "M \<le> 65535"
    and d: "d = edist (q ! qi)"
    and nb: "nb \<in> set (neighbors (fst (q ! qi)) (fst (snd (q ! qi))))"
    and p: "passable m nb"
    and old: "lab (cols m) ds nb = Some old" "int (d + 1) < old"
  defines "ds' \<equiv> ta_set ds (snd nb * cols m + fst nb) (int (d + 1))"
    and "q' \<equiv> q @ [(fst nb, snd nb, d + 1)]"
  shows "bfs_inv m M g ds' q' qi \<and> below (cols m) ds' ds \<and>
         lab (cols m) ds' nb = Some (int d + 1)"
proof -
  let ?c = "cols m"
  let ?i = "snd nb * ?c + fst nb"
  from inv have b: "inv_bound m M ds" and iq: "inv_queue m M g ds q" and
    srt: "inv_sorted q qi" and il: "inv_labeled m M ds q" and
    dn: "\<forall>i < qi. entry_done m M ds (q ! i)" and
    hd: "q \<noteq> []" "q ! 0 = (fst g, snd g, 0)"
    by (simp_all add: bfs_inv_def)
  from p have valid: "isValidTile m (fst nb) (snd nb)" by (simp add: passable_def)
  from b have len: "int (length ds) = cols m * rows m" by (simp add: inv_bound_def)
  from tile_index_range [OF valid] len have rng: "0 \<le> ?i" "?i < int (length ds)" by simp_all
  from valid_lab [OF b valid] old(1) have oldM: "old \<le> M" by auto
  have e0: "q ! qi \<in> set q" using qi by simp
  have oldeq: "old = M"
  proof (rule ccontr)
    assume "old \<noteq> M"
    with oldM have "old < M" by simp
    with il valid old(1) have "(fst nb, snd nb, nat old) \<in> set q"
      unfolding inv_labeled_def by blast
    with srt qi have "edist (fst nb, snd nb, nat old) \<le> edist (q ! qi) + 1"
      unfolding inv_sorted_def by blast
    with d old(2) show False by simp
  qed
  with old(2) have dM: "int (d + 1) < M" by simp
  have get_nb: "lab ?c ds' nb = Some (int (d + 1))"
    unfolding lab_def ds'_def using rng dM M by (intro ta_get_set_same) simp_all
  have other: "lab ?c ds' t = lab ?c ds t" if "snd t * ?c + fst t \<noteq> ?i" for t
    unfolding lab_def ds'_def using that by (intro ta_get_set_other) simp
  have other_valid: "lab ?c ds' t = lab ?c ds t" if "isValidTile m (fst t) (snd t)" "t \<noteq> nb" for t
    using that tile_index_inj [OF that(1) valid] by (intro other) auto
  have same_idx: "lab ?c ds t = Some old \<and> lab ?c ds' t = Some (int (d + 1))"
    if "snd t * ?c + fst t = ?i" for t
    using that old(1) get_nb by (simp add: lab_def)
  have bel: "below ?c ds' ds"
    unfolding below_def
  proof (intro conjI allI impI)
    show "length ds' = length ds" by (simp add: ds'_def)
  next
    fix t v assume tv: "lab ?c ds t = Some v"
    show "\<exists>v'. lab ?c ds' t = Some v' \<and> v' \<le> v"
    proof (cases "snd t * ?c + fst t = ?i")
      case True
      from same_idx [OF True] tv old(2) show ?thesis by auto
    next
      case False
      from other [OF False] tv show ?thesis by simp
    qed
  qed
  have b': "inv_bound m M ds'"
    unfolding inv_bound_def
  proof (intro conjI allI impI)
    show "int (length ds') = cols m * rows m" using len by (simp add: ds'_def)
  next
    fix t assume v: "isValidTile m (fst t) (snd t)"
    show "\<exists>v. lab ?c ds' t = Some v \<and> v \<le> M"
    proof (cases "t = nb")
      case True
      with get_nb dM show ?thesis by auto
    next
      case False
      from valid_lab [OF b v] obtain w where "lab ?c ds t = Some w" "w \<le> M" by blast
      with other_valid [OF v False] show ?thesis by simp
    qed
  qed
  have e0_facts: "passable m (etile (q ! qi))" "walk m g d (etile (q ! qi))"
    using iq e0 d unfolding inv_queue_def by blast+
  have walk_nb: "walk m g (Suc d) nb"
  proof -
    have "etile (q ! qi) \<in> set (neighbors (fst nb) (snd nb))"
      using nb neighbors_sym [of nb "etile (q ! qi)"] by simp
    with e0_facts(2) p show ?thesis by (intro walk_step) auto
  qed
  have iq': "inv_queue m M g ds' q'"
    unfolding inv_queue_def
  proof
    fix e assume "e \<in> set q'"
    then consider "e \<in> set q" | "e = (fst nb, snd nb, d + 1)" by (auto simp: q'_def)
    then show "passable m (etile e) \<and> lab ?c ds' (etile e) = Some (int (edist e)) \<and>
        int (edist e) < M \<and> walk m g (edist e) (etile e)"
    proof cases
      case 1
      with iq have f: "passable m (etile e)" "lab ?c ds (etile e) = Some (int (edist e))"
        "int (edist e) < M" "walk m g (edist e) (etile e)"
        unfolding inv_queue_def by blast+
      have "etile e \<noteq> nb" using f(2,3) old(1) oldeq by auto
      moreover have "isValidTile m (fst (etile e)) (snd (etile e))"
        using f(1) by (simp add: passable_def)
      ultimately have "lab ?c ds' (etile e) = lab ?c ds (etile e)" by (intro other_valid)
      with f show ?thesis by simp
    next
      case 2
      with p get_nb dM walk_nb show ?thesis by simp
    qed
  qed
  have all_le: "\<forall>e \<in> set q. edist e \<le> d + 1"
    using srt qi d unfolding inv_sorted_def by blast
  have srt': "inv_sorted q' qi"
    unfolding inv_sorted_def
  proof (intro conjI impI ballI)
    show "sorted (map edist q')"
      using srt all_le by (auto simp: q'_def inv_sorted_def sorted_append)
  next
    fix e assume "qi < length q'" "e \<in> set q'"
    have "q' ! qi = q ! qi" using qi by (simp add: q'_def nth_append)
    with \<open>e \<in> set q'\<close> all_le d show "edist e \<le> edist (q' ! qi) + 1"
      by (auto simp: q'_def)
  qed
  have il': "inv_labeled m M ds' q'"
    unfolding inv_labeled_def
  proof (intro allI impI)
    fix t v assume a: "isValidTile m (fst t) (snd t) \<and> lab ?c ds' t = Some v \<and> v < M"
    show "(fst t, snd t, nat v) \<in> set q'"
    proof (cases "t = nb")
      case True
      with a get_nb have "v = int (d + 1)" by simp
      then have "nat v = d + 1" by (simp only: nat_int)
      with True show ?thesis by (simp add: q'_def)
    next
      case False
      with a other_valid [of t] have "lab ?c ds t = Some v" by simp
      with a il have "(fst t, snd t, nat v) \<in> set q" unfolding inv_labeled_def by blast
      then show ?thesis by (simp add: q'_def)
    qed
  qed
  have dn': "\<forall>i < qi. entry_done m M ds' (q' ! i)"
  proof (intro allI impI)
    fix i assume "i < qi"
    with qi have "q' ! i = q ! i" by (simp add: q'_def nth_append)
    moreover from dn \<open>i < qi\<close> have "entry_done m M ds (q ! i)" by blast
    ultimately show "entry_done m M ds' (q' ! i)" using bel by (simp add: entry_done_below)
  qed
  have "q' \<noteq> []" "q' ! 0 = (fst g, snd g, 0)" "qi \<le> length q'"
    using hd qi by (simp_all add: q'_def nth_append)
  with b' iq' srt' il' dn' have "bfs_inv m M g ds' q' qi" by (simp add: bfs_inv_def)
  with bel get_nb show ?thesis by simp
qed

lemma visit_step:
  assumes inv: "bfs_inv m M g ds q qi" and qi: "qi < length q" and M: "M \<le> 65535"
    and d: "d = edist (q ! qi)"
    and nb: "nb \<in> set (neighbors (fst (q ! qi)) (fst (snd (q ! qi))))"
  defines "r \<equiv> visitFlowNeighbor m (cols m) d (ds, q) nb"
  shows "bfs_inv m M g (fst r) (snd r) qi \<and> below (cols m) (fst r) ds \<and>
         (\<exists>sfx. snd r = q @ sfx) \<and>
         (passable m nb \<longrightarrow> (\<exists>v. lab (cols m) (fst r) nb = Some v \<and> v \<le> int d + 1))"
proof -
  from visit_cases [of m "cols m" d ds q nb]
  consider (same) "r = (ds, q)"
    | (push) old where "passable m nb" "lab (cols m) ds nb = Some old" "int (d + 1) < old"
        "r = (ta_set ds (snd nb * cols m + fst nb) (int (d + 1)), q @ [(fst nb, snd nb, d + 1)])"
    unfolding r_def by blast
  then show ?thesis
  proof cases
    case same
    from inv have "inv_bound m M ds" by (simp add: bfs_inv_def)
    from visit_unchanged [OF this, of d q nb] same inv show ?thesis
      by (simp add: r_def below_refl)
  next
    case push
    from visit_push [OF inv qi M d nb push(1,2,3)] push(4) show ?thesis by simp
  qed
qed

lemma fold_visits:
  assumes inv: "bfs_inv m M g ds q qi" and qi: "qi < length q" and M: "M \<le> 65535"
    and d: "d = edist (q ! qi)"
    and nbs: "set nbs \<subseteq> set (neighbors (fst (q ! qi)) (fst (snd (q ! qi))))"
  defines "r \<equiv> foldl (visitFlowNeighbor m (cols m) d) (ds, q) nbs"
  shows "bfs_inv m M g (fst r) (snd r) qi \<and> below (cols m) (fst r) ds \<and>
         (\<exists>sfx. snd r = q @ sfx) \<and>
         (\<forall>u \<in> set nbs. passable m u \<longrightarrow> (\<exists>v. lab (cols m) (fst r) u = Some v \<and> v \<le> int d + 1))"
  using inv qi d nbs unfolding r_def
proof (induction nbs arbitrary: ds q)
  case Nil
  then show ?case by (simp add: below_refl)
next
  case (Cons nb nbs)
  let ?r1 = "visitFlowNeighbor m (cols m) d (ds, q) nb"
  let ?r = "foldl (visitFlowNeighbor m (cols m) d) ?r1 nbs"
  have nb: "nb \<in> set (neighbors (fst (q ! qi)) (fst (snd (q ! qi))))"
    using Cons.prems(4) by simp
  from visit_step [OF Cons.prems(1,2) M Cons.prems(3) nb]
  obtain sfx where s1: "bfs_inv m M g (fst ?r1) (snd ?r1) qi" "below (cols m) (fst ?r1) ds"
    "snd ?r1 = q @ sfx"
    "passable m nb \<longrightarrow> (\<exists>v. lab (cols m) (fst ?r1) nb = Some v \<and> v \<le> int d + 1)"
    by blast
  have same: "snd ?r1 ! qi = q ! qi" using s1(3) Cons.prems(2) by (simp add: nth_append)
  have qi1: "qi < length (snd ?r1)" using s1(3) Cons.prems(2) by simp
  have d1: "d = edist (snd ?r1 ! qi)" using same Cons.prems(3) by simp
  have nbs1: "set nbs \<subseteq> set (neighbors (fst (snd ?r1 ! qi)) (fst (snd (snd ?r1 ! qi))))"
    using same Cons.prems(4) by simp
  from Cons.IH [OF s1(1) qi1 d1 nbs1]
  obtain sfx' where s2: "bfs_inv m M g (fst ?r) (snd ?r) qi" "below (cols m) (fst ?r) (fst ?r1)"
    "snd ?r = snd ?r1 @ sfx'"
    "\<forall>u \<in> set nbs. passable m u \<longrightarrow> (\<exists>v. lab (cols m) (fst ?r) u = Some v \<and> v \<le> int d + 1)"
    by auto
  have "passable m nb \<longrightarrow> (\<exists>v. lab (cols m) (fst ?r) nb = Some v \<and> v \<le> int d + 1)"
  proof
    assume "passable m nb"
    with s1(4) obtain v where v: "lab (cols m) (fst ?r1) nb = Some v" "v \<le> int d + 1" by blast
    with s2(2) obtain v' where "lab (cols m) (fst ?r) nb = Some v'" "v' \<le> v"
      unfolding below_def by blast
    with v show "\<exists>v. lab (cols m) (fst ?r) nb = Some v \<and> v \<le> int d + 1" by auto
  qed
  moreover have "below (cols m) (fst ?r) ds" using s2(2) s1(2) by (rule below_trans)
  moreover have "\<exists>sfx. snd ?r = q @ sfx" using s1(3) s2(3) by simp
  ultimately show ?case using s2(1,4) by simp
qed

lemma process_step:
  assumes inv: "bfs_inv m M g ds q qi" and qi: "qi < length q" and M: "M \<le> 65535"
  defines "r \<equiv> processEntry m (cols m) (q ! qi) (ds, q)"
  shows "bfs_inv m M g (fst r) (snd r) (qi + 1)"
proof -
  let ?d = "edist (q ! qi)"
  have r: "r = foldl (visitFlowNeighbor m (cols m) ?d) (ds, q)
                (neighbors (fst (q ! qi)) (fst (snd (q ! qi))))"
    by (simp add: r_def processEntry_def)
  from fold_visits [OF inv qi M refl subset_refl]
  obtain sfx where f: "bfs_inv m M g (fst r) (snd r) qi" "snd r = q @ sfx"
    "\<forall>u \<in> set (neighbors (fst (q ! qi)) (fst (snd (q ! qi)))).
        passable m u \<longrightarrow> (\<exists>v. lab (cols m) (fst r) u = Some v \<and> v \<le> int ?d + 1)"
    unfolding r by blast
  have same: "snd r ! qi = q ! qi" and len: "qi < length (snd r)"
    using f(2) qi by (simp_all add: nth_append)
  from f(1) have srt: "inv_sorted (snd r) qi" and
    dn: "\<forall>i < qi. entry_done m M (fst r) (snd r ! i)"
    by (simp_all add: bfs_inv_def)
  have srt': "inv_sorted (snd r) (qi + 1)"
    unfolding inv_sorted_def
  proof (intro conjI impI ballI)
    show "sorted (map edist (snd r))" using srt by (simp add: inv_sorted_def)
  next
    fix e assume a: "qi + 1 < length (snd r)" "e \<in> set (snd r)"
    from srt have "sorted (map edist (snd r))" by (simp add: inv_sorted_def)
    then have "map edist (snd r) ! qi \<le> map edist (snd r) ! (qi + 1)"
      using a(1) by (intro sorted_nth_mono) simp_all
    then have "edist (snd r ! qi) \<le> edist (snd r ! (qi + 1))" using a(1) by simp
    moreover have "edist e \<le> edist (snd r ! qi) + 1"
      using srt len a(2) unfolding inv_sorted_def by blast
    ultimately show "edist e \<le> edist (snd r ! (qi + 1)) + 1" by simp
  qed
  have "entry_done m M (fst r) (snd r ! qi)"
    unfolding entry_done_def same using f(3) by blast
  with dn have dn': "\<forall>i < qi + 1. entry_done m M (fst r) (snd r ! i)"
    by (auto simp: less_Suc_eq)
  from f(1) srt' dn' len show ?thesis by (simp add: bfs_inv_def)
qed

lemma bfs_loop_inv:
  assumes "bfs_inv m M g ds q qi" and "M \<le> 65535"
  shows "\<exists>q'. bfs_inv m M g (bfs_loop m (cols m) ds q qi) q' (length q')"
  using assms
proof (induction m "cols m" ds q qi rule: bfs_loop.induct)
  case (1 m ds queue queueIndex)
  show ?case
  proof (cases "queueIndex < length queue")
    case True
    let ?r = "processEntry m (cols m) (queue ! queueIndex) (ds, queue)"
    from process_step [OF "1.prems"(1) True "1.prems"(2)]
    have "bfs_inv m M g (fst ?r) (snd ?r) (queueIndex + 1)" .
    from "1.hyps" [OF True this "1.prems"(2)] True show ?thesis
      by (subst bfs_loop.simps) simp
  next
    case False
    with "1.prems"(1) have "queueIndex = length queue" by (simp add: bfs_inv_def)
    with "1.prems"(1) False show ?thesis
      by (subst bfs_loop.simps) auto
  qed
qed

text \<open>What the invariant gives when the queue is used up.\<close>

lemma final_upper:
  assumes inv: "bfs_inv m M g ds q (length q)"
  shows "walk m g n t \<Longrightarrow> int n < M \<Longrightarrow> \<exists>v. lab (cols m) ds t = Some v \<and> 0 \<le> v \<and> v \<le> int n"
proof (induction n arbitrary: t)
  case 0
  then have t: "t = g" by (simp add: walk_0)
  from inv have "q \<noteq> []" and q0: "q ! 0 = (fst g, snd g, 0)" by (simp_all add: bfs_inv_def)
  then have "0 < length q" by simp
  then have "q ! 0 \<in> set q" by (rule nth_mem)
  note this q0
  moreover from inv have "inv_queue m M g ds q" by (simp add: bfs_inv_def)
  ultimately have "lab (cols m) ds (etile (fst g, snd g, 0 :: nat)) = Some (int (edist (fst g, snd g, 0 :: nat)))"
    unfolding inv_queue_def by metis
  with t show ?case by simp
next
  case (Suc n)
  from Suc.prems(1) obtain u where u: "passable m t" "walk m g n u"
    "u \<in> set (neighbors (fst t) (snd t))"
    by (auto simp: walk_Suc)
  from Suc.IH [OF u(2)] Suc.prems(2)
  obtain v where v: "lab (cols m) ds u = Some v" "0 \<le> v" "v \<le> int n" by auto
  from walk_passable [OF u(2)] have uv: "isValidTile m (fst u) (snd u)" by (simp add: passable_def)
  from inv have il: "inv_labeled m M ds q" and dn: "\<forall>i < length q. entry_done m M ds (q ! i)"
    and b: "inv_bound m M ds"
    by (simp_all add: bfs_inv_def)
  from il uv v Suc.prems(2) have "(fst u, snd u, nat v) \<in> set q"
    unfolding inv_labeled_def by auto
  then obtain i where i: "i < length q" "q ! i = (fst u, snd u, nat v)"
    by (auto simp: in_set_conv_nth)
  with dn have "entry_done m M ds (fst u, snd u, nat v)" by metis
  moreover have "t \<in> set (neighbors (fst u) (snd u))" using u(3) neighbors_sym by blast
  moreover have "int (nat v) + 1 < M" using v Suc.prems(2) by simp
  ultimately obtain w where w: "lab (cols m) ds t = Some w" "w \<le> int (nat v) + 1"
    using u(1) unfolding entry_done_def by auto
  from w(1) have "0 \<le> w" using ta_get_bounds [of ds _ w] by (simp add: lab_def)
  with w v show ?case by auto
qed

lemma final_walk:
  assumes inv: "bfs_inv m M g ds q (length q)"
    and "isValidTile m (fst t) (snd t)" "lab (cols m) ds t = Some v" "v < M"
  shows "walk m g (nat v) t"
proof -
  from inv have il: "inv_labeled m M ds q" and iq: "inv_queue m M g ds q"
    by (simp_all add: bfs_inv_def)
  from il assms(2-4) have "(fst t, snd t, nat v) \<in> set q" unfolding inv_labeled_def by blast
  with iq have "walk m g (edist (fst t, snd t, nat v)) (etile (fst t, snd t, nat v))"
    unfolding inv_queue_def by blast
  then show ?thesis by simp
qed

lemma final_shortest:
  assumes inv: "bfs_inv m M g ds q (length q)" and w: "walk m g n t" and n: "int n < M"
  shows "\<exists>d. lab (cols m) ds t = Some (int d) \<and> shortest m g t d"
proof -
  from final_upper [OF inv w n] obtain v where v: "lab (cols m) ds t = Some v" "0 \<le> v" "v \<le> int n"
    by blast
  from walk_passable [OF w] have valid: "isValidTile m (fst t) (snd t)" by (simp add: passable_def)
  from v n have vM: "v < M" by simp
  from final_walk [OF inv valid v(1) vM] have wv: "walk m g (nat v) t" .
  have "nat v \<le> k" if "walk m g k t" for k
  proof (cases "int k < M")
    case True
    from final_upper [OF inv that True] v(1) show ?thesis by auto
  next
    case False
    with vM show ?thesis by simp
  qed
  with wv have "shortest m g t (nat v)" by (simp add: shortest_def)
  with v show ?thesis by (intro exI [of _ "nat v"]) simp
qed

lemma final_unreachable:
  assumes inv: "bfs_inv m M g ds q (length q)"
    and valid: "isValidTile m (fst t) (snd t)" and un: "\<forall>n. \<not> walk m g n t"
  shows "lab (cols m) ds t = Some M"
proof -
  from inv have b: "inv_bound m M ds" by (simp add: bfs_inv_def)
  from valid_lab [OF b valid] obtain v where v: "lab (cols m) ds t = Some v" "v \<le> M" by blast
  have "\<not> v < M" using final_walk [OF inv valid v(1)] un by blast
  with v show ?thesis by simp
qed

text \<open>A tile that can be reached at all can be reached in fewer moves than there are tiles.\<close>

definition exactly :: "TileMap \<Rightarrow> TilePosition \<Rightarrow> nat \<Rightarrow> TilePosition \<Rightarrow> bool" where
  "exactly m g n t \<longleftrightarrow> walk m g n t \<and> (\<forall>j < n. \<not> walk m g j t)"

lemma exactly_down: "exactly m g (Suc n) t \<Longrightarrow> \<exists>u. exactly m g n u"
proof -
  assume e: "exactly m g (Suc n) t"
  then obtain u where u: "passable m t" "walk m g n u" "u \<in> set (neighbors (fst t) (snd t))"
    by (auto simp: exactly_def walk_Suc)
  have "\<not> walk m g j u" if "j < n" for j
  proof
    assume "walk m g j u"
    with u have "walk m g (Suc j) t" unfolding walk_Suc by blast
    with e that show False by (auto simp: exactly_def)
  qed
  with u(2) have "exactly m g n u" by (simp add: exactly_def)
  then show ?thesis by blast
qed

lemma exactly_levels: "exactly m g n t \<Longrightarrow> i \<le> n \<Longrightarrow> \<exists>u. exactly m g i u"
proof (induction "n - i" arbitrary: i)
  case 0
  then have "i = n" by simp
  with 0 show ?case by blast
next
  case (Suc k)
  then have "k = n - Suc i" "Suc i \<le> n" by simp_all
  from Suc.hyps(1) [OF this(1) Suc.prems(1) this(2)] obtain u where "exactly m g (Suc i) u" by blast
  then show ?case by (rule exactly_down)
qed

lemma card_valid_tiles:
  "card {t. isValidTile m (fst t) (snd t)} = nat (cols m) * nat (rows m)"
proof -
  have "{t. isValidTile m (fst t) (snd t)} = {0..<cols m} \<times> {0..<rows m}"
    by (auto simp: isValidTile_def)
  then show ?thesis by (simp add: card_cartesian_product)
qed

lemma walk_short:
  assumes "walk m g n t"
  shows "\<exists>k. walk m g k t \<and> int k < cols m * rows m"
proof -
  define k where "k = (LEAST k. walk m g k t)"
  have wk: "walk m g k t" unfolding k_def using assms by (rule LeastI)
  have "\<not> walk m g j t" if "j < k" for j
    using that not_less_Least unfolding k_def by blast
  with wk have ex: "exactly m g k t" by (simp add: exactly_def)
  define f where "f i = (SOME u. exactly m g i u)" for i
  have fi: "exactly m g i (f i)" if "i \<le> k" for i
    unfolding f_def using exactly_levels [OF ex that] by (rule someI_ex)
  have inj: "inj_on f {0..k}"
  proof (rule inj_onI)
    fix a b assume ab: "a \<in> {0..k}" "b \<in> {0..k}" "f a = f b"
    show "a = b"
    proof (rule ccontr)
      assume "a \<noteq> b"
      then consider "a < b" | "b < a" by linarith
      then show False
      proof cases
        case 1
        with fi [of a] fi [of b] ab show False by (auto simp: exactly_def)
      next
        case 2
        with fi [of a] fi [of b] ab show False by (auto simp: exactly_def)
      qed
    qed
  qed
  have sub: "f ` {0..k} \<subseteq> {t. isValidTile m (fst t) (snd t)}"
  proof
    fix u assume "u \<in> f ` {0..k}"
    then obtain i where "i \<le> k" "u = f i" by auto
    with fi [of i] have "walk m g i u" by (simp add: exactly_def)
    from walk_passable [OF this] show "u \<in> {t. isValidTile m (fst t) (snd t)}"
      by (simp add: passable_def)
  qed
  have fin: "finite {t. isValidTile m (fst t) (snd t)}"
  proof -
    have "{t. isValidTile m (fst t) (snd t)} = {0..<cols m} \<times> {0..<rows m}"
      by (auto simp: isValidTile_def)
    then show ?thesis by simp
  qed
  have "card {0..k} = card (f ` {0..k})" using inj by (simp add: card_image)
  also have "\<dots> \<le> card {t. isValidTile m (fst t) (snd t)}" using sub fin by (rule card_mono [rotated])
  finally have "k + 1 \<le> nat (cols m) * nat (rows m)" by (simp add: card_valid_tiles)
  moreover have "0 < cols m" "0 < rows m"
    using walk_passable [OF assms] by (auto simp: passable_def isValidTile_def)
  ultimately have "int k < cols m * rows m"
  proof -
    assume a: "k + 1 \<le> nat (cols m) * nat (rows m)" "0 < cols m" "0 < rows m"
    have "int (nat (cols m) * nat (rows m)) = cols m * rows m" using a(2,3) by simp
    moreover from a(1) have "int (k + 1) \<le> int (nat (cols m) * nat (rows m))"
      by (simp only: of_nat_le_iff)
    ultimately show ?thesis by simp
  qed
  with wk show ?thesis by blast
qed

definition passableNeighbors :: "TileMap \<Rightarrow> TilePosition \<Rightarrow> TilePosition list" where
  "passableNeighbors m t = filter (passable m) (neighbors (fst t) (snd t))"

text \<open>The field the game starts with, for \<open>corridor3\<close>.\<close>

definition field0 :: FlowField where
  "field0 = \<lparr>distances = [65535, 65535, 65535], target = (- 1, - 1), ff_cols = 3, ff_rows = 1,
              MAX_DISTANCE = 65535\<rparr>"

lemma bfs_init:
  assumes p: "passable m g" and len: "int (length ds) = cols m * rows m"
    and M: "0 < M" "M \<le> 65535"
  shows "bfs_inv m M g (ta_set (ta_fill ds M) (snd g * cols m + fst g) 0) [(fst g, snd g, 0)] 0"
proof -
  let ?c = "cols m"
  let ?i = "snd g * ?c + fst g"
  let ?ds = "ta_set (ta_fill ds M) ?i 0"
  from p have valid: "isValidTile m (fst g) (snd g)" by (simp add: passable_def)
  from tile_index_range [OF valid] len have rng: "0 \<le> ?i" "?i < int (length (ta_fill ds M))"
    by simp_all
  have g0: "lab ?c ?ds g = Some 0"
    unfolding lab_def using rng by (intro ta_get_set_same) simp_all
  have other: "lab ?c ?ds t = Some M" if "isValidTile m (fst t) (snd t)" "t \<noteq> g" for t
  proof -
    have ne: "?i \<noteq> snd t * ?c + fst t" using tile_index_inj [OF that(1) valid] that(2) by auto
    from tile_index_range [OF that(1)] len
    have "0 \<le> snd t * ?c + fst t" "snd t * ?c + fst t < int (length ds)" by simp_all
    then have "ta_get (ta_fill ds M) (snd t * ?c + fst t) = Some M"
      using M by (intro ta_get_fill) simp_all
    with ne show ?thesis by (simp add: lab_def ta_get_set_other)
  qed
  have b: "inv_bound m M ?ds"
    unfolding inv_bound_def
  proof (intro conjI allI impI)
    show "int (length ?ds) = cols m * rows m" using len by simp
  next
    fix t assume v: "isValidTile m (fst t) (snd t)"
    show "\<exists>v. lab ?c ?ds t = Some v \<and> v \<le> M"
    proof (cases "t = g")
      case True
      with g0 M show ?thesis by auto
    next
      case False
      from other [OF v False] show ?thesis by simp
    qed
  qed
  have iq: "inv_queue m M g ?ds [(fst g, snd g, 0)]"
    using p g0 M by (simp add: inv_queue_def walk_here)
  have srt: "inv_sorted [(fst g, snd g, 0 :: nat)] 0" by (simp add: inv_sorted_def)
  have il: "inv_labeled m M ?ds [(fst g, snd g, 0)]"
    unfolding inv_labeled_def
  proof (intro allI impI)
    fix t v assume a: "isValidTile m (fst t) (snd t) \<and> lab ?c ?ds t = Some v \<and> v < M"
    have "t = g"
    proof (rule ccontr)
      assume "t \<noteq> g"
      with a other [of t] show False by auto
    qed
    with a g0 show "(fst t, snd t, nat v) \<in> set [(fst g, snd g, 0)]" by simp
  qed
  from b iq srt il show ?thesis by (simp add: bfs_inv_def)
qed

lemma shortest_unique: "shortest m g t d \<Longrightarrow> shortest m g t d' \<Longrightarrow> d = d'"
  by (auto simp: shortest_def intro: le_antisym)

lemma options_list:
  "\<forall>u \<in> set xs. \<exists>v. F u = Some v \<Longrightarrow> map F xs = map Some (map (\<lambda>u. the (F u)) xs)"
  by (induction xs) auto

text \<open>The local equation of exact distances.\<close>

lemma shortest_local:
  assumes D: "\<And>u k. walk m g k u \<Longrightarrow> \<exists>d. F u = Some (int d) \<and> shortest m g u d"
    and w: "walk m g n t" and ne: "t \<noteq> g"
  shows "\<exists>ls. map F (passableNeighbors m t) = map Some ls \<and> ls \<noteq> [] \<and>
              F t = Some (1 + Min (set ls))"
proof -
  from D [OF w] obtain d where d: "F t = Some (int d)" "shortest m g t d" by blast
  from d(2) have wd: "walk m g d t" by (simp add: shortest_def)
  from walk_passable [OF w] have pt: "passable m t" .
  have "d \<noteq> 0"
  proof
    assume "d = 0"
    with wd have "walk m g 0 t" by simp
    with ne show False by (simp add: walk_0)
  qed
  then obtain k where k: "d = Suc k" by (cases d) auto
  with wd obtain u0 where u0: "walk m g k u0" "u0 \<in> set (neighbors (fst t) (snd t))"
    by (auto simp: walk_Suc)
  from walk_passable [OF u0(1)] u0(2) have u0in: "u0 \<in> set (passableNeighbors m t)"
    by (simp add: passableNeighbors_def)
  have reach: "walk m g (Suc n) u" if "u \<in> set (passableNeighbors m t)" for u
  proof -
    from that have "passable m u" "u \<in> set (neighbors (fst t) (snd t))"
      by (simp_all add: passableNeighbors_def)
    moreover then have "t \<in> set (neighbors (fst u) (snd u))" using neighbors_sym by blast
    ultimately show ?thesis using w by (intro walk_step) auto
  qed
  have each: "\<exists>e. F u = Some (int e) \<and> shortest m g u e \<and> k \<le> e"
    if "u \<in> set (passableNeighbors m t)" for u
  proof -
    from D [OF reach [OF that]] obtain e where e: "F u = Some (int e)" "shortest m g u e" by blast
    from that have "u \<in> set (neighbors (fst t) (snd t))" by (simp add: passableNeighbors_def)
    with e(2) pt have "walk m g (Suc e) t" by (auto simp: shortest_def intro: walk_step)
    with d(2) k have "Suc k \<le> Suc e" unfolding shortest_def by blast
    with e show ?thesis by auto
  qed
  let ?ls = "map (\<lambda>u. the (F u)) (passableNeighbors m t)"
  have m1: "map F (passableNeighbors m t) = map Some ?ls"
    using each by (intro options_list) blast
  have ne': "?ls \<noteq> []" using u0in by auto
  from D [OF u0(1)] obtain e0 where e0: "F u0 = Some (int e0)" "shortest m g u0 e0" by blast
  from e0(2) u0(1) have "e0 \<le> k" by (simp add: shortest_def)
  moreover from each [OF u0in] e0(1) have "k \<le> e0" by auto
  ultimately have "e0 = k" by simp
  with e0(1) u0in have kin: "int k \<in> set ?ls" by force
  have "int k \<le> y" if "y \<in> set ?ls" for y
  proof -
    from that obtain u where "u \<in> set (passableNeighbors m t)" "y = the (F u)" by auto
    with each [of u] show ?thesis by auto
  qed
  with kin have "Min (set ?ls) = int k" by (intro Min_eqI) auto
  with d(1) k have "F t = Some (1 + Min (set ?ls))" by simp
  with m1 ne' show ?thesis by blast
qed

lemma distance_valid:
  "ff_cols f = cols m \<Longrightarrow> ff_rows f = rows m \<Longrightarrow> isValidTile m (fst t) (snd t) \<Longrightarrow>
     getFlowFieldDistance f (fst t) (snd t) = lab (cols m) (distances f) t"
  by (auto simp: getFlowFieldDistance_def lab_def isValidTile_def)

lemma distance_invalid:
  "ff_cols f = cols m \<Longrightarrow> ff_rows f = rows m \<Longrightarrow> \<not> isValidTile m (fst t) (snd t) \<Longrightarrow>
     getFlowFieldDistance f (fst t) (snd t) = Some (MAX_DISTANCE f)"
  by (auto simp: getFlowFieldDistance_def isValidTile_def)

lemma calculateFlowField_inv:
  assumes differs: "target ff \<noteq> g" and p: "passable m g"
    and dims: "ff_cols ff = cols m" "ff_rows ff = rows m"
      "int (length (distances ff)) = cols m * rows m"
    and mx: "0 < MAX_DISTANCE ff" "MAX_DISTANCE ff \<le> 65535"
  shows "\<exists>q. bfs_inv m (MAX_DISTANCE ff) g (distances (calculateFlowField ff g m)) q (length q)"
    and "ff_cols (calculateFlowField ff g m) = cols m"
    and "ff_rows (calculateFlowField ff g m) = rows m"
    and "MAX_DISTANCE (calculateFlowField ff g m) = MAX_DISTANCE ff"
    and "target (calculateFlowField ff g m) = g"
proof -
  let ?M = "MAX_DISTANCE ff"
  let ?ds0 = "ta_set (ta_fill (distances ff) ?M) (snd g * cols m + fst g) 0"
  from differs have d: "\<not> (fst (target ff) = fst g \<and> snd (target ff) = snd g)"
    by (simp add: prod_eq_iff)
  from p have v: "\<not> (\<not> isValidTile m (fst g) (snd g) \<or> isSolid m (fst g) (snd g))"
    by (simp add: passable_def)
  have eq: "calculateFlowField ff g m =
      ff\<lparr>target := g, distances := bfs_loop m (cols m) ?ds0 [(fst g, snd g, 0)] 0\<rparr>"
    unfolding calculateFlowField_def using d v dims(1) by (simp only: if_False)
  from bfs_init [OF p dims(3) mx]
  have "bfs_inv m ?M g ?ds0 [(fst g, snd g, 0)] 0" .
  from bfs_loop_inv [OF this mx(2)]
  show "\<exists>q. bfs_inv m ?M g (distances (calculateFlowField ff g m)) q (length q)"
    by (simp add: eq)
  show "ff_cols (calculateFlowField ff g m) = cols m"
    "ff_rows (calculateFlowField ff g m) = rows m"
    "MAX_DISTANCE (calculateFlowField ff g m) = MAX_DISTANCE ff"
    "target (calculateFlowField ff g m) = g"
    using dims by (simp_all add: eq)
qed

lemma flowField_reachable:
  assumes differs: "target ff \<noteq> g" and p: "passable m g"
    and dims: "ff_cols ff = cols m" "ff_rows ff = rows m"
      "int (length (distances ff)) = cols m * rows m"
    and mx: "cols m * rows m \<le> MAX_DISTANCE ff" "MAX_DISTANCE ff \<le> 65535"
    and w: "walk m g n t"
  shows "\<exists>d. getFlowFieldDistance (calculateFlowField ff g m) (fst t) (snd t) = Some (int d) \<and>
             shortest m g t d"
proof -
  let ?f = "calculateFlowField ff g m"
  from walk_short [OF w] obtain k where k: "walk m g k t" "int k < cols m * rows m" by blast
  with mx have pos: "0 < MAX_DISTANCE ff" and kM: "int k < MAX_DISTANCE ff" by simp_all
  from calculateFlowField_inv [OF differs p dims pos mx(2)]
  obtain q where inv: "bfs_inv m (MAX_DISTANCE ff) g (distances ?f) q (length q)"
    and c: "ff_cols ?f = cols m" "ff_rows ?f = rows m"
    by blast
  from walk_passable [OF w] have "isValidTile m (fst t) (snd t)" by (simp add: passable_def)
  from distance_valid [OF c this] final_shortest [OF inv k(1) kM] show ?thesis by simp
qed

text \<open>
  C1. Let \<open>calculateFlowField\<close> run for a passable target \<open>g\<close> that differs from the
  stored target, on a field of the map's dimensions whose sentinel is at least the number
  of tiles and fits sixteen bits. Then the distance of \<open>g\<close> is 0; every tile from which
  \<open>g\<close> can be reached holds the length of a shortest 4-connected walk to \<open>g\<close>; every
  such tile other than \<open>g\<close> holds one more than the minimum over its passable
  neighbours; and every tile from which \<open>g\<close> cannot be reached holds the sentinel.
\<close>

theorem flowField_exact:
  assumes differs: "target ff \<noteq> g" and p: "passable m g"
    and dims: "ff_cols ff = cols m" "ff_rows ff = rows m"
      "int (length (distances ff)) = cols m * rows m"
    and mx: "cols m * rows m \<le> MAX_DISTANCE ff" "MAX_DISTANCE ff \<le> 65535"
  shows
    "getFlowFieldDistance (calculateFlowField ff g m) (fst g) (snd g) = Some 0 \<and>
     (\<forall>t n. walk m g n t \<longrightarrow>
        (\<exists>d. getFlowFieldDistance (calculateFlowField ff g m) (fst t) (snd t) = Some (int d) \<and>
             shortest m g t d)) \<and>
     (\<forall>t n. walk m g n t \<and> t \<noteq> g \<longrightarrow>
        (\<exists>ls. map (\<lambda>u. getFlowFieldDistance (calculateFlowField ff g m) (fst u) (snd u))
                 (passableNeighbors m t) = map Some ls \<and>
              ls \<noteq> [] \<and>
              getFlowFieldDistance (calculateFlowField ff g m) (fst t) (snd t) =
                Some (1 + Min (set ls)))) \<and>
     (\<forall>t. (\<forall>n. \<not> walk m g n t) \<longrightarrow>
        getFlowFieldDistance (calculateFlowField ff g m) (fst t) (snd t) =
          Some (MAX_DISTANCE ff))"
proof -
  let ?f = "calculateFlowField ff g m"
  let ?F = "\<lambda>u. getFlowFieldDistance ?f (fst u) (snd u)"
  have reach: "\<exists>d. ?F t = Some (int d) \<and> shortest m g t d" if "walk m g n t" for t n
    using flowField_reachable [OF differs p dims mx that] .
  have g0: "?F g = Some 0"
  proof -
    from p have "walk m g 0 g" by (rule walk_here)
    from reach [OF this] obtain d where d: "?F g = Some (int d)" "shortest m g g d" by blast
    from d(2) \<open>walk m g 0 g\<close> have "d = 0" by (auto simp: shortest_def)
    with d(1) show ?thesis by simp
  qed
  have loc: "\<exists>ls. map ?F (passableNeighbors m t) = map Some ls \<and> ls \<noteq> [] \<and>
              ?F t = Some (1 + Min (set ls))" if "walk m g n t" "t \<noteq> g" for t n
    using shortest_local [of m g ?F, OF reach that] .
  have un: "?F t = Some (MAX_DISTANCE ff)" if "\<forall>n. \<not> walk m g n t" for t
  proof -
    from p have "isValidTile m (fst g) (snd g)" by (simp add: passable_def)
    then have "0 < cols m * rows m" by (simp add: isValidTile_def)
    with mx have pos: "0 < MAX_DISTANCE ff" by simp
    from calculateFlowField_inv [OF differs p dims pos mx(2)]
    obtain q where inv: "bfs_inv m (MAX_DISTANCE ff) g (distances ?f) q (length q)"
      and c: "ff_cols ?f = cols m" "ff_rows ?f = rows m"
      and M: "MAX_DISTANCE ?f = MAX_DISTANCE ff"
      by blast
    show ?thesis
    proof (cases "isValidTile m (fst t) (snd t)")
      case True
      from distance_valid [OF c True] final_unreachable [OF inv True that] show ?thesis by simp
    next
      case False
      from distance_invalid [OF c False] M show ?thesis by simp
    qed
  qed
  from g0 reach loc un show ?thesis by blast
qed

lemma corridor3_passable:
  "passable corridor3 (0, 0)" "passable corridor3 (1, 0)" "\<not> passable corridor3 (2, 0)"
  by (simp_all add: passable_def isValidTile_def isSolid_def getTile_def corridor3_def)

theorem flowField_exact_witness:
  "target field0 \<noteq> (0, 0) \<and> passable corridor3 (0, 0) \<and>
   ff_cols field0 = cols corridor3 \<and> ff_rows field0 = rows corridor3 \<and>
   int (length (distances field0)) = cols corridor3 * rows corridor3 \<and>
   cols corridor3 * rows corridor3 \<le> MAX_DISTANCE field0 \<and> MAX_DISTANCE field0 \<le> 65535 \<and>
   getFlowFieldDistance (calculateFlowField field0 (0, 0) corridor3) 0 0 = Some 0 \<and>
   getFlowFieldDistance (calculateFlowField field0 (0, 0) corridor3) 1 0 = Some 1 \<and>
   getFlowFieldDistance (calculateFlowField field0 (0, 0) corridor3) 2 0 = Some 65535"
proof -
  have h: "target field0 \<noteq> (0, 0)" "passable corridor3 (0, 0)"
    "ff_cols field0 = cols corridor3" "ff_rows field0 = rows corridor3"
    "int (length (distances field0)) = cols corridor3 * rows corridor3"
    "cols corridor3 * rows corridor3 \<le> MAX_DISTANCE field0" "MAX_DISTANCE field0 \<le> 65535"
    by (simp_all add: field0_def corridor3_passable) (simp_all add: corridor3_def)
  note th = flowField_exact [OF h]
  let ?F = "\<lambda>t. getFlowFieldDistance (calculateFlowField field0 (0, 0) corridor3) (fst t) (snd t)"
  from th have a: "?F (0, 0) = Some 0" by blast
  have w1: "walk corridor3 (0, 0) 1 (1, 0)"
    using walk_step [OF walk_here [OF corridor3_passable(1)], of "(1, 0)"]
    by (simp add: neighbors_def corridor3_passable)
  with th obtain d where d: "?F (1, 0) = Some (int d)" "shortest corridor3 (0, 0) (1, 0) d"
    by blast
  from d(2) w1 have "d \<le> 1" unfolding shortest_def by blast
  moreover have "d \<noteq> 0"
  proof
    assume "d = 0"
    with d(2) have "walk corridor3 (0, 0) 0 (1, 0)" by (simp add: shortest_def)
    then show False by (simp add: walk_0)
  qed
  ultimately have "d = 1" by simp
  with d(1) have b: "?F (1, 0) = Some 1" by simp
  have "\<forall>n. \<not> walk corridor3 (0, 0) n (2, 0)"
    using walk_passable corridor3_passable(3) by blast
  with th have "?F (2, 0) = Some (MAX_DISTANCE field0)" by blast
  then have c: "?F (2, 0) = Some 65535" by (simp add: field0_def)
  from h a b c show ?thesis by simp
qed

section \<open>Optimality of the A* search\<close>

abbreviation ntile :: "PathNode \<Rightarrow> TilePosition" where
  "ntile n \<equiv> (node_x n, node_y n)"

definition hGoal :: "int \<Rightarrow> int \<Rightarrow> TilePosition \<Rightarrow> int" where
  "hGoal gx gy u = heuristic (fst u) (snd u) gx gy"

lemma hGoal_step: "u' \<in> set (neighbors (fst u) (snd u)) \<Longrightarrow> hGoal gx gy u' \<le> hGoal gx gy u + 1"
  by (cases u) (auto simp: neighbors_def hGoal_def heuristic_def)

lemma walk_extend_goal:
  "walk m g n t \<Longrightarrow> passable m g' \<Longrightarrow> g \<in> set (neighbors (fst g') (snd g')) \<Longrightarrow>
     walk m g' (Suc n) t"
proof (induction rule: walk.induct)
  case walk_here
  have "walk m g' 0 g'" using walk_here.prems(1) by (rule walk.walk_here)
  moreover have "g' \<in> set (neighbors (fst g) (snd g))"
    using walk_here.prems(2) neighbors_sym by blast
  ultimately show ?case using walk_here.hyps by (rule walk_step)
next
  case (walk_step n u t)
  from walk_step.IH [OF walk_step.prems] walk_step.hyps(2,3) show ?case
    by (rule walk.walk_step)
qed

lemma walk_rev: "walk m g n t \<Longrightarrow> walk m t n g"
proof (induction rule: walk.induct)
  case walk_here
  then show ?case by (rule walk.walk_here)
next
  case (walk_step n u t)
  from walk_step.IH walk_step.hyps(3,2) show ?case by (rule walk_extend_goal)
qed

lemma findIndex_None: "findIndex P xs = None \<longleftrightarrow> (\<forall>x \<in> set xs. \<not> P x)"
  by (induction xs) (auto split: option.splits)

lemma findIndex_Some: "findIndex P xs = Some i \<Longrightarrow> i < length xs \<and> P (xs ! i)"
proof (induction xs arbitrary: i)
  case (Cons a xs)
  then show ?case by (auto split: if_splits option.splits)
qed simp

text \<open>A list of passable tiles in which each tile is 4-adjacent to the one before it.\<close>

definition is_path :: "TileMap \<Rightarrow> TilePosition list \<Rightarrow> bool" where
  "is_path m p \<longleftrightarrow>
     (\<forall>t \<in> set p. passable m t) \<and>
     (\<forall>i. i + 1 < length p \<longrightarrow> p ! (i + 1) \<in> set (neighbors (fst (p ! i)) (snd (p ! i))))"

lemma is_path_single: "passable m t \<Longrightarrow> is_path m [t]"
  by (simp add: is_path_def)

lemma is_path_snoc:
  assumes "is_path m p" "p \<noteq> []" "passable m t" "t \<in> set (neighbors (fst (last p)) (snd (last p)))"
  shows "is_path m (p @ [t])"
  unfolding is_path_def
proof (intro conjI allI impI ballI)
  fix u assume "u \<in> set (p @ [t])"
  with assms(1,3) show "passable m u" by (auto simp: is_path_def)
next
  fix i assume i: "i + 1 < length (p @ [t])"
  show "(p @ [t]) ! (i + 1) \<in> set (neighbors (fst ((p @ [t]) ! i)) (snd ((p @ [t]) ! i)))"
  proof (cases "i + 1 < length p")
    case True
    with assms(1) show ?thesis by (simp add: is_path_def nth_append)
  next
    case False
    with i have e: "i + 1 = length p" by simp
    then have "(p @ [t]) ! (i + 1) = t" by (simp add: nth_append)
    moreover have "(p @ [t]) ! i = last p"
    proof -
      from e have "i = length p - 1" by simp
      with e assms(2) show ?thesis by (simp add: nth_append last_conv_nth)
    qed
    ultimately show ?thesis using assms(4) by simp
  qed
qed

text \<open>
  The invariant of the A* loop for the start tile \<open>s\<close> and the goal \<open>(gx, gy)\<close>.
  A node of the open set is a passable tile; its \<open>g\<close> is the length of a walk to the start
  and of its parent chain; its \<open>h\<close> and \<open>f\<close> are the heuristic and \<open>g + h\<close>.
\<close>

definition node_ok :: "TileMap \<Rightarrow> TilePosition \<Rightarrow> int \<Rightarrow> int \<Rightarrow> PathNode \<Rightarrow> bool" where
  "node_ok m s gx gy n \<longleftrightarrow>
     passable m (ntile n) \<and> 0 \<le> node_g n \<and> walk m s (nat (node_g n)) (ntile n) \<and>
     int (length (chain n)) = node_g n + 1 \<and> is_path m (chain n) \<and>
     node_h n = hGoal gx gy (ntile n) \<and> node_f n = node_g n + hGoal gx gy (ntile n)"

text \<open>
  \<open>reached opn cl u b\<close>: the tile \<open>u\<close> is closed or has an open node with \<open>g \<le> b\<close>.
\<close>

definition reached :: "PathNode list \<Rightarrow> TilePosition set \<Rightarrow> TilePosition \<Rightarrow> int \<Rightarrow> bool" where
  "reached opn cl u b \<longleftrightarrow> u \<in> cl \<or> (\<exists>n \<in> set opn. ntile n = u \<and> node_g n \<le> b)"

definition closed_ok ::
  "TileMap \<Rightarrow> TilePosition \<Rightarrow> PathNode list \<Rightarrow> TilePosition set \<Rightarrow> TilePosition \<Rightarrow> bool" where
  "closed_ok m s opn cl c \<longleftrightarrow>
     (\<forall>k. walk m s k c \<longrightarrow>
        (\<forall>u \<in> set (neighbors (fst c) (snd c)). passable m u \<longrightarrow> reached opn cl u (int k + 1)))"

definition astar_inv ::
  "TileMap \<Rightarrow> TilePosition \<Rightarrow> int \<Rightarrow> int \<Rightarrow> PathNode list \<Rightarrow> TilePosition set \<Rightarrow> bool" where
  "astar_inv m s gx gy opn cl \<longleftrightarrow>
     (\<forall>n \<in> set opn. node_ok m s gx gy n) \<and>
     distinct (map ntile opn) \<and>
     (\<forall>n \<in> set opn. ntile n \<notin> cl) \<and>
     (\<forall>c \<in> cl. closed_ok m s opn cl c) \<and>
     reached opn cl s 0"

text \<open>On every walk that ends outside the closed set some open node has a small \<open>f\<close>.\<close>

lemma frontier:
  assumes inv: "astar_inv m s gx gy opn cl"
  shows "walk m s k u \<Longrightarrow> u \<notin> cl \<Longrightarrow> \<exists>n \<in> set opn. node_f n \<le> int k + hGoal gx gy u"
proof (induction rule: walk.induct)
  case walk_here
  from inv have "reached opn cl s 0" by (simp add: astar_inv_def)
  with walk_here.prems obtain n where n: "n \<in> set opn" "ntile n = s" "node_g n \<le> 0"
    by (auto simp: reached_def)
  with inv have "node_f n = node_g n + hGoal gx gy s" by (auto simp: astar_inv_def node_ok_def)
  with n(3) have "node_f n \<le> int 0 + hGoal gx gy s" by simp
  with n(1) show ?case by blast
next
  case (walk_step k u' u)
  show ?case
  proof (cases "u' \<in> cl")
    case True
    with inv have "closed_ok m s opn cl u'" by (simp add: astar_inv_def)
    moreover have "u \<in> set (neighbors (fst u') (snd u'))"
      using walk_step.hyps(2) neighbors_sym by blast
    ultimately have "reached opn cl u (int k + 1)"
      using walk_step.hyps(1,3) unfolding closed_ok_def by blast
    with walk_step.prems obtain n where n: "n \<in> set opn" "ntile n = u" "node_g n \<le> int k + 1"
      by (auto simp: reached_def)
    with inv have "node_f n = node_g n + hGoal gx gy u" by (auto simp: astar_inv_def node_ok_def)
    with n(3) have "node_f n \<le> int (Suc k) + hGoal gx gy u" by simp
    with n(1) show ?thesis by blast
  next
    case False
    from walk_step.IH [OF False] obtain n where n: "n \<in> set opn" "node_f n \<le> int k + hGoal gx gy u'"
      by blast
    from hGoal_step [OF walk_step.hyps(2), of gx gy] n(2)
    have "node_f n \<le> int (Suc k) + hGoal gx gy u" by simp
    with n(1) show ?thesis by blast
  qed
qed

lemma distinct_map_insort:
  "distinct (map g (insort_key f x xs)) \<longleftrightarrow> g x \<notin> g ` set xs \<and> distinct (map g xs)"
  by (induction xs) (auto simp: set_insort_key)

lemma distinct_map_sort: "distinct (map g (sort_key f xs)) = distinct (map g xs)"
  by (induction xs) (simp_all add: distinct_map_insort)

lemma sort_parts:
  assumes "opn \<noteq> []"
  shows "sort_key node_f opn = hd (sort_key node_f opn) # tl (sort_key node_f opn)"
    and "set opn = insert (hd (sort_key node_f opn)) (set (tl (sort_key node_f opn)))"
    and "distinct (map ntile opn) \<Longrightarrow>
           distinct (map ntile (hd (sort_key node_f opn) # tl (sort_key node_f opn)))"
    and "\<forall>n \<in> set opn. node_f (hd (sort_key node_f opn)) \<le> node_f n"
proof -
  let ?s = "sort_key node_f opn"
  from assms have ne: "?s \<noteq> []" by (cases opn) (simp_all add: sort_key_def)
  then show eq: "?s = hd ?s # tl ?s" by simp
  have "set opn = set ?s" by simp
  also have "\<dots> = set (hd ?s # tl ?s)" using eq by simp
  finally show "set opn = insert (hd ?s) (set (tl ?s))" by simp
  show "distinct (map ntile (hd ?s # tl ?s))" if "distinct (map ntile opn)"
  proof -
    have "distinct (map ntile ?s) = distinct (map ntile opn)" by (rule distinct_map_sort)
    with that eq show ?thesis by simp
  qed
  have "sorted (map node_f ?s)" by (rule sorted_sort_key)
  then have "sorted (map node_f (hd ?s # tl ?s))" using eq by simp
  then have "\<forall>n \<in> set (tl ?s). node_f (hd ?s) \<le> node_f n" by simp
  then have "\<forall>n \<in> set (hd ?s # tl ?s). node_f (hd ?s) \<le> node_f n" by simp
  with eq show "\<forall>n \<in> set opn. node_f (hd ?s) \<le> node_f n" by simp
qed

text \<open>The node with the least \<open>f\<close> has the exact distance.\<close>

lemma popped_optimal:
  assumes inv: "astar_inv m s gx gy opn cl" and ne: "opn \<noteq> []"
    and w: "walk m s k (ntile (hd (sort_key node_f opn)))"
  shows "node_g (hd (sort_key node_f opn)) \<le> int k"
proof -
  let ?n0 = "hd (sort_key node_f opn)"
  from sort_parts(2) [OF ne] have in0: "?n0 \<in> set opn" by blast
  with inv have "ntile ?n0 \<notin> cl" and f0: "node_f ?n0 = node_g ?n0 + hGoal gx gy (ntile ?n0)"
    by (auto simp: astar_inv_def node_ok_def)
  from frontier [OF inv w this(1)] obtain n where
    n: "n \<in> set opn" "node_f n \<le> int k + hGoal gx gy (ntile ?n0)" by blast
  from sort_parts(4) [OF ne] n(1) have "node_f ?n0 \<le> node_f n" by blast
  with n(2) f0 show ?thesis by simp
qed

text \<open>Every tile of the old open set still has a node, with a \<open>g\<close> that is not larger.\<close>

definition improves :: "PathNode list \<Rightarrow> PathNode list \<Rightarrow> bool" where
  "improves opn' opn \<longleftrightarrow>
     (\<forall>n \<in> set opn. \<exists>n' \<in> set opn'. ntile n' = ntile n \<and> node_g n' \<le> node_g n)"

lemma improves_refl: "improves opn opn"
  by (auto simp: improves_def)

lemma improves_trans: "improves c b \<Longrightarrow> improves b a \<Longrightarrow> improves c a"
  unfolding improves_def by (metis order_trans)

lemma reached_improves: "reached opn cl u b \<Longrightarrow> improves opn' opn \<Longrightarrow> reached opn' cl u b"
  unfolding reached_def improves_def by (metis order_trans)

lemma reached_mono: "reached opn cl u b \<Longrightarrow> b \<le> b' \<Longrightarrow> reached opn cl u b'"
  unfolding reached_def by (metis order_trans)

lemma node_ok_child:
  assumes cur: "node_ok m s gx gy cur" and p: "passable m nb"
    and nb: "nb \<in> set (neighbors (node_x cur) (node_y cur))"
  shows "node_ok m s gx gy
           (PathNode (fst nb) (snd nb) (node_g cur + 1) (hGoal gx gy nb)
              (node_g cur + 1 + heuristic (fst nb) (snd nb) gx gy) (Some cur))"
proof -
  from cur have g: "0 \<le> node_g cur" and w: "walk m s (nat (node_g cur)) (ntile cur)"
    and l: "int (length (chain cur)) = node_g cur + 1" and ip: "is_path m (chain cur)"
    by (simp_all add: node_ok_def)
  have "nb \<in> set (neighbors (fst (last (chain cur))) (snd (last (chain cur))))"
    using nb by (simp add: chain_last)
  with ip chain_nonempty p have ip': "is_path m (chain cur @ [nb])" by (rule is_path_snoc)
  have "ntile cur \<in> set (neighbors (fst nb) (snd nb))"
    using nb neighbors_sym [of nb "ntile cur"] by simp
  with w have "walk m s (Suc (nat (node_g cur))) nb" using p by (rule walk_step)
  moreover have "nat (node_g cur + 1) = Suc (nat (node_g cur))" using g by simp
  ultimately have "walk m s (nat (node_g cur + 1)) nb" by simp
  with p g l ip' show ?thesis by (simp add: node_ok_def hGoal_def)
qed

lemma visit_astar:
  assumes ok: "\<forall>n \<in> set opn. node_ok m s gx gy n" and dist: "distinct (map ntile opn)"
    and disj: "\<forall>n \<in> set opn. ntile n \<notin> cl" and cur: "node_ok m s gx gy cur"
    and nb: "nb \<in> set (neighbors (node_x cur) (node_y cur))"
  defines "opn' \<equiv> visitNeighbor m gx gy cl cur opn nb"
  shows "(\<forall>n \<in> set opn'. node_ok m s gx gy n) \<and> distinct (map ntile opn') \<and>
         (\<forall>n \<in> set opn'. ntile n \<notin> cl) \<and> improves opn' opn \<and>
         (passable m nb \<longrightarrow> reached opn' cl nb (node_g cur + 1))"
proof (cases "\<not> isValidTile m (fst nb) (snd nb) \<or> isSolid m (fst nb) (snd nb) \<or> nb \<in> cl")
  case True
  then have "opn' = opn" by (simp add: opn'_def visitNeighbor_def)
  moreover from True have "passable m nb \<longrightarrow> nb \<in> cl" by (auto simp: passable_def)
  ultimately show ?thesis using ok dist disj by (auto simp: improves_refl reached_def)
next
  case False
  then have p: "passable m nb" and ncl: "nb \<notin> cl" by (auto simp: passable_def)
  let ?P = "\<lambda>n. node_x n = fst nb \<and> node_y n = snd nb"
  show ?thesis
  proof (cases "findIndex ?P opn")
    case None
    let ?new = "PathNode (fst nb) (snd nb) (node_g cur + 1) (hGoal gx gy nb)
              (node_g cur + 1 + heuristic (fst nb) (snd nb) gx gy) (Some cur)"
    from None False have eq: "opn' = opn @ [?new]"
      by (simp add: opn'_def visitNeighbor_def hGoal_def)
    from None have "\<forall>n \<in> set opn. ntile n \<noteq> nb"
      by (auto simp: findIndex_None prod_eq_iff)
    then have "nb \<notin> set (map ntile opn)" by auto
    with dist have d': "distinct (map ntile opn')" by (simp add: eq)
    have okn: "node_ok m s gx gy ?new" using cur p nb by (rule node_ok_child)
    have "improves opn' opn" by (auto simp: improves_def eq)
    moreover have "reached opn' cl nb (node_g cur + 1)"
      unfolding reached_def eq by (intro disjI2 bexI [of _ ?new]) simp_all
    ultimately show ?thesis using ok disj okn ncl d' by (auto simp: eq)
  next
    case (Some i)
    from findIndex_Some [OF Some] have i: "i < length opn" "ntile (opn ! i) = nb"
      by (simp_all add: prod_eq_iff)
    then have ini: "opn ! i \<in> set opn" by simp
    show ?thesis
    proof (cases "node_g cur + 1 < node_g (opn ! i)")
      case False
      with Some \<open>\<not> (\<not> isValidTile m (fst nb) (snd nb) \<or> isSolid m (fst nb) (snd nb) \<or> nb \<in> cl)\<close>
      have "opn' = opn" by (simp add: opn'_def visitNeighbor_def)
      moreover have "reached opn cl nb (node_g cur + 1)"
        unfolding reached_def using ini i(2) False by (intro disjI2 bexI [of _ "opn ! i"]) simp_all
      ultimately show ?thesis using ok dist disj by (simp add: improves_refl)
    next
      case True
      let ?upd = "PathNode (node_x (opn ! i)) (node_y (opn ! i)) (node_g cur + 1)
                             (node_h (opn ! i))
                             (node_g cur + 1 + heuristic (fst nb) (snd nb) gx gy)
                             (Some cur)"
      from True Some \<open>\<not> (\<not> isValidTile m (fst nb) (snd nb) \<or> isSolid m (fst nb) (snd nb) \<or> nb \<in> cl)\<close>
      have eq: "opn' = opn[i := ?upd]" by (simp add: opn'_def visitNeighbor_def)
      from ok ini have "node_h (opn ! i) = hGoal gx gy (ntile (opn ! i))"
        by (simp add: node_ok_def)
      with i(2) have "?upd = PathNode (fst nb) (snd nb) (node_g cur + 1) (hGoal gx gy nb)
              (node_g cur + 1 + heuristic (fst nb) (snd nb) gx gy) (Some cur)"
        by (simp add: prod_eq_iff)
      with node_ok_child [OF cur p nb] have oku: "node_ok m s gx gy ?upd" by simp
      have tu: "ntile ?upd = nb" using i(2) by simp
      have sub: "set opn' \<subseteq> insert ?upd (set opn)" unfolding eq by (rule set_update_subset_insert)
      have "map ntile opn' = (map ntile opn)[i := ntile (opn ! i)]"
        unfolding eq by (simp add: map_update)
      also have "\<dots> = map ntile opn" using i(1) by (simp add: list_update_same_conv)
      finally have d': "distinct (map ntile opn')" using dist by simp
      have imp: "improves opn' opn"
        unfolding improves_def
      proof
        fix n assume "n \<in> set opn"
        then obtain j where j: "j < length opn" "opn ! j = n" by (auto simp: in_set_conv_nth)
        show "\<exists>n' \<in> set opn'. ntile n' = ntile n \<and> node_g n' \<le> node_g n"
        proof (cases "j = i")
          case True
          have "?upd \<in> set opn'" unfolding eq using i(1) by (rule set_update_memI)
          moreover have "ntile ?upd = ntile n \<and> node_g ?upd \<le> node_g n"
            using True j \<open>node_g cur + 1 < node_g (opn ! i)\<close> by simp
          ultimately show ?thesis by blast
        next
          case False
          then have "opn' ! j = n" using j by (simp add: eq)
          moreover have "j < length opn'" using j by (simp add: eq)
          ultimately have "n \<in> set opn'" by (metis nth_mem)
          then show ?thesis by auto
        qed
      qed
      have "?upd \<in> set opn'" unfolding eq using i(1) by (rule set_update_memI)
      then have r: "reached opn' cl nb (node_g cur + 1)"
        unfolding reached_def using tu by (intro disjI2 bexI [of _ ?upd]) simp_all
      have "\<forall>n \<in> set opn'. node_ok m s gx gy n" using sub ok oku by blast
      moreover have "\<forall>n \<in> set opn'. ntile n \<notin> cl" using sub disj ncl tu by auto
      ultimately show ?thesis using d' imp r by simp
    qed
  qed
qed

lemma fold_astar:
  assumes ok: "\<forall>n \<in> set opn. node_ok m s gx gy n" and dist: "distinct (map ntile opn)"
    and disj: "\<forall>n \<in> set opn. ntile n \<notin> cl" and cur: "node_ok m s gx gy cur"
    and nbs: "set nbs \<subseteq> set (neighbors (node_x cur) (node_y cur))"
  defines "opn' \<equiv> foldl (visitNeighbor m gx gy cl cur) opn nbs"
  shows "(\<forall>n \<in> set opn'. node_ok m s gx gy n) \<and> distinct (map ntile opn') \<and>
         (\<forall>n \<in> set opn'. ntile n \<notin> cl) \<and> improves opn' opn \<and>
         (\<forall>u \<in> set nbs. passable m u \<longrightarrow> reached opn' cl u (node_g cur + 1))"
  using ok dist disj nbs unfolding opn'_def
proof (induction nbs arbitrary: opn)
  case Nil
  then show ?case by (simp add: improves_refl)
next
  case (Cons nb nbs)
  let ?o1 = "visitNeighbor m gx gy cl cur opn nb"
  let ?o = "foldl (visitNeighbor m gx gy cl cur) ?o1 nbs"
  have nb: "nb \<in> set (neighbors (node_x cur) (node_y cur))" using Cons.prems(4) by simp
  from visit_astar [OF Cons.prems(1,2,3) cur nb]
  have s1: "\<forall>n \<in> set ?o1. node_ok m s gx gy n" "distinct (map ntile ?o1)"
    "\<forall>n \<in> set ?o1. ntile n \<notin> cl" "improves ?o1 opn"
    "passable m nb \<longrightarrow> reached ?o1 cl nb (node_g cur + 1)"
    by blast+
  have "set nbs \<subseteq> set (neighbors (node_x cur) (node_y cur))" using Cons.prems(4) by simp
  from Cons.IH [OF s1(1,2,3) this]
  have s2: "\<forall>n \<in> set ?o. node_ok m s gx gy n" "distinct (map ntile ?o)"
    "\<forall>n \<in> set ?o. ntile n \<notin> cl" "improves ?o ?o1"
    "\<forall>u \<in> set nbs. passable m u \<longrightarrow> reached ?o cl u (node_g cur + 1)"
    by blast+
  have "improves ?o opn" using s2(4) s1(4) by (rule improves_trans)
  moreover have "passable m nb \<longrightarrow> reached ?o cl nb (node_g cur + 1)"
    using s1(5) s2(4) by (blast intro: reached_improves)
  ultimately show ?case using s2(1,2,3,5) by simp
qed



lemma fold_astar_parts:
  assumes "\<forall>n \<in> set opn. node_ok m s gx gy n" and "distinct (map ntile opn)"
    and "\<forall>n \<in> set opn. ntile n \<notin> cl" and "node_ok m s gx gy cur"
    and "set nbs \<subseteq> set (neighbors (node_x cur) (node_y cur))"
    and "opn' = foldl (visitNeighbor m gx gy cl cur) opn nbs"
  shows "\<forall>n \<in> set opn'. node_ok m s gx gy n" and "distinct (map ntile opn')"
    and "\<forall>n \<in> set opn'. ntile n \<notin> cl" and "improves opn' opn"
    and "\<forall>u \<in> set nbs. passable m u \<longrightarrow> reached opn' cl u (node_g cur + 1)"
  using fold_astar [OF assms(1-5)] assms(6) by blast+

text \<open>One pass of the loop keeps the invariant.\<close>

lemma astar_step_inv:
  assumes inv: "astar_inv m s gx gy (openSet st) (closedSet st)" and ne: "openSet st \<noteq> []"
  shows "astar_inv m s gx gy (openSet (astar_step m gx gy st)) (closedSet (astar_step m gx gy st))"
proof -
  let ?n0 = "popped st"
  let ?rest = "tl (sort_key node_f (openSet st))"
  let ?cl = "insert (ntile ?n0) (closedSet st)"
  let ?o = "foldl (visitNeighbor m gx gy ?cl ?n0) ?rest (neighbors (node_x ?n0) (node_y ?n0))"
  have st': "openSet (astar_step m gx gy st) = ?o" "closedSet (astar_step m gx gy st) = ?cl"
    by (simp_all add: astar_step_def expand_def)
  note sp = sort_parts [OF ne, folded popped_def]
  from inv have ok: "\<forall>n \<in> set (openSet st). node_ok m s gx gy n"
    and dist: "distinct (map ntile (openSet st))"
    and disj: "\<forall>n \<in> set (openSet st). ntile n \<notin> closedSet st"
    and clo: "\<forall>c \<in> closedSet st. closed_ok m s (openSet st) (closedSet st) c"
    and rs: "reached (openSet st) (closedSet st) s 0"
    by (simp_all add: astar_inv_def)
  from sp(2) have in0: "?n0 \<in> set (openSet st)" and rsub: "set ?rest \<subseteq> set (openSet st)"
    by auto
  from sp(3) [OF dist] have d0: "\<forall>n \<in> set ?rest. ntile n \<noteq> ntile ?n0"
    "distinct (map ntile ?rest)"
    by (auto simp: image_iff)
  have ok0: "node_ok m s gx gy ?n0" using ok in0 by blast
  have okr: "\<forall>n \<in> set ?rest. node_ok m s gx gy n" using ok rsub by blast
  have disjr: "\<forall>n \<in> set ?rest. ntile n \<notin> ?cl"
  proof
    fix n assume n: "n \<in> set ?rest"
    with d0(1) have "ntile n \<noteq> ntile ?n0" by blast
    moreover from n rsub disj have "ntile n \<notin> closedSet st" by blast
    ultimately show "ntile n \<notin> ?cl" by simp
  qed
  note f = fold_astar_parts [OF okr d0(2) disjr ok0 subset_refl refl]
  have keep: "reached ?o ?cl u b" if "reached (openSet st) (closedSet st) u b" for u b
  proof -
    from that consider "u \<in> closedSet st"
      | n where "n \<in> set (openSet st)" "ntile n = u" "node_g n \<le> b"
      by (auto simp: reached_def)
    then show ?thesis
    proof cases
      case 1
      then show ?thesis by (simp add: reached_def)
    next
      case 2
      show ?thesis
      proof (cases "n = ?n0")
        case True
        with 2 show ?thesis by (simp add: reached_def)
      next
        case False
        with 2(1) sp(2) have "n \<in> set ?rest" by auto
        with 2 have "reached ?rest ?cl u b" by (auto simp: reached_def)
        then show ?thesis using f(4) by (rule reached_improves)
      qed
    qed
  qed
  have clo': "closed_ok m s ?o ?cl c" if "c \<in> ?cl" for c
  proof (cases "c = ntile ?n0")
    case True
    show ?thesis
      unfolding closed_ok_def
    proof (intro allI impI ballI)
      fix k u assume w: "walk m s k c" and u: "u \<in> set (neighbors (fst c) (snd c))"
        and p: "passable m u"
      from w True have "walk m s k (ntile (hd (sort_key node_f (openSet st))))"
        by (simp add: popped_def)
      from popped_optimal [OF inv ne this] have "node_g ?n0 \<le> int k" by (simp add: popped_def)
      moreover from f(5) u p True have "reached ?o ?cl u (node_g ?n0 + 1)" by simp
      moreover note reached_mono [of ?o ?cl u "node_g ?n0 + 1" "int k + 1"]
      ultimately show "reached ?o ?cl u (int k + 1)" by simp
    qed
  next
    case False
    with that have "c \<in> closedSet st" by simp
    with clo have "closed_ok m s (openSet st) (closedSet st) c" by blast
    then show ?thesis unfolding closed_ok_def using keep by blast
  qed
  from f(1,2,3) clo' keep [OF rs] show ?thesis
    unfolding st' by (simp add: astar_inv_def)
qed

definition search_inv :: "TileMap \<Rightarrow> TilePosition \<Rightarrow> int \<Rightarrow> int \<Rightarrow> search_state \<Rightarrow> bool" where
  "search_inv m s gx gy st \<longleftrightarrow>
     astar_inv m s gx gy (openSet st) (closedSet st) \<and>
     finite (closedSet st) \<and> iterations st = int (card (closedSet st)) \<and>
     (gx, gy) \<notin> closedSet st \<and> (\<forall>c \<in> closedSet st. isValidTile m (fst c) (snd c))"

lemma finite_valid_tiles: "finite {t. isValidTile m (fst t) (snd t)}"
proof -
  have "{t. isValidTile m (fst t) (snd t)} = {0..<cols m} \<times> {0..<rows m}"
    by (auto simp: isValidTile_def)
  then show ?thesis by simp
qed

lemma search_running:
  assumes inv: "search_inv m s gx gy st" and w: "walk m s k (gx, gy)"
    and mx: "cols m * rows m \<le> mx"
  shows "running mx st"
proof -
  from inv have a: "astar_inv m s gx gy (openSet st) (closedSet st)"
    and g: "(gx, gy) \<notin> closedSet st" and fin: "finite (closedSet st)"
    and it: "iterations st = int (card (closedSet st))"
    and v: "\<forall>c \<in> closedSet st. isValidTile m (fst c) (snd c)"
    by (simp_all add: search_inv_def)
  from frontier [OF a w g] have ne: "openSet st \<noteq> []" by auto
  let ?V = "{t. isValidTile m (fst t) (snd t)}"
  from walk_passable [OF w] have gv: "(gx, gy) \<in> ?V" by (simp add: passable_def)
  then have pos: "0 < cols m" "0 < rows m" by (simp_all add: isValidTile_def)
  have "closedSet st \<subseteq> ?V - {(gx, gy)}" using v g by auto
  then have "card (closedSet st) \<le> card (?V - {(gx, gy)})"
    using finite_valid_tiles [of m] by (intro card_mono) simp_all
  also have "\<dots> < card ?V"
    using gv finite_valid_tiles [of m] by (intro card_Diff1_less) simp_all
  finally have "card (closedSet st) < nat (cols m) * nat (rows m)" by (simp add: card_valid_tiles)
  then have "int (card (closedSet st)) < int (nat (cols m) * nat (rows m))"
    by (simp only: of_nat_less_iff)
  also have "int (nat (cols m) * nat (rows m)) = cols m * rows m" using pos by simp
  finally have "iterations st < mx" using it mx by simp
  with ne show ?thesis by (simp add: running_def)
qed

lemma search_step:
  assumes inv: "search_inv m s gx gy st" and run: "running mx st"
    and ng: "\<not> at_goal gx gy (popped st)"
  shows "search_inv m s gx gy (astar_step m gx gy st)"
proof -
  from inv have a: "astar_inv m s gx gy (openSet st) (closedSet st)"
    and g: "(gx, gy) \<notin> closedSet st" and fin: "finite (closedSet st)"
    and it: "iterations st = int (card (closedSet st))"
    and v: "\<forall>c \<in> closedSet st. isValidTile m (fst c) (snd c)"
    by (simp_all add: search_inv_def)
  from run have ne: "openSet st \<noteq> []" by (simp add: running_def)
  from popped_in [OF ne] a have ok0: "node_ok m s gx gy (popped st)"
    and out: "ntile (popped st) \<notin> closedSet st"
    by (auto simp: astar_inv_def)
  have cl: "closedSet (astar_step m gx gy st) = insert (ntile (popped st)) (closedSet st)"
    by (simp add: astar_step_def expand_def)
  have "card (insert (ntile (popped st)) (closedSet st)) = card (closedSet st) + 1"
    using fin out by simp
  with it have it': "iterations (astar_step m gx gy st) = int (card (closedSet (astar_step m gx gy st)))"
    by (simp add: iterations_astar_step cl)
  from ng have "ntile (popped st) \<noteq> (gx, gy)" by (simp add: at_goal_def)
  with g have g': "(gx, gy) \<notin> closedSet (astar_step m gx gy st)" by (auto simp: cl)
  from ok0 have "isValidTile m (fst (ntile (popped st))) (snd (ntile (popped st)))"
    by (simp add: node_ok_def passable_def)
  with v have v': "\<forall>c \<in> closedSet (astar_step m gx gy st). isValidTile m (fst c) (snd c)"
    by (simp add: cl)
  from astar_step_inv [OF a ne] fin it' g' v' show ?thesis
    by (simp add: search_inv_def cl)
qed

lemma search_goal:
  assumes inv: "search_inv m s gx gy st" and run: "running mx st"
    and g: "at_goal gx gy (popped st)"
  shows "\<exists>p st'. astar_loop m gx gy mx st = (Some p, st') \<and> p \<noteq> [] \<and> is_path m p \<and>
                 shortest m s (gx, gy) (length p - 1)"
proof -
  from inv have a: "astar_inv m s gx gy (openSet st) (closedSet st)"
    by (simp add: search_inv_def)
  from run have ne: "openSet st \<noteq> []" by (simp add: running_def)
  from popped_in [OF ne] a have ok0: "node_ok m s gx gy (popped st)"
    by (auto simp: astar_inv_def)
  from g have t: "ntile (popped st) = (gx, gy)" by (simp add: at_goal_def)
  from ok0 t have w: "walk m s (nat (node_g (popped st))) (gx, gy)"
    and l: "int (length (chain (popped st))) = node_g (popped st) + 1"
    and g0: "0 \<le> node_g (popped st)" and ip: "is_path m (chain (popped st))"
    by (simp_all add: node_ok_def)
  from l g0 have len: "length (chain (popped st)) - 1 = nat (node_g (popped st))" by simp
  have "nat (node_g (popped st)) \<le> k" if "walk m s k (gx, gy)" for k
  proof -
    from that t have "walk m s k (ntile (hd (sort_key node_f (openSet st))))"
      by (simp add: popped_def)
    from popped_optimal [OF a ne this] show ?thesis by (simp add: popped_def)
  qed
  with w have "shortest m s (gx, gy) (nat (node_g (popped st)))"
    by (simp add: shortest_def)
  then have "shortest m s (gx, gy) (length (chain (popped st)) - 1)"
    by (simp only: len)
  with astar_loop_goal [OF run g, of m] ip show ?thesis
    by (simp add: reconstructPath_chain)
qed

lemma astar_loop_optimal_aux:
  assumes w: "walk m s k (gx, gy)" and mx: "cols m * rows m \<le> mx"
  shows "search_inv m s gx gy st \<longrightarrow>
     (\<exists>p st'. astar_loop m gx gy mx st = (Some p, st') \<and> p \<noteq> [] \<and> is_path m p \<and>
                 shortest m s (gx, gy) (length p - 1))"
proof (rule astar_loop_induct [where mx = mx and gx = gx and gy = gy and m = m and
      P = "\<lambda>st. search_inv m s gx gy st \<longrightarrow>
     (\<exists>p st'. astar_loop m gx gy mx st = (Some p, st') \<and> p \<noteq> [] \<and> is_path m p \<and>
                 shortest m s (gx, gy) (length p - 1))"])
  fix st assume "\<not> running mx st"
  with search_running [OF _ w mx] show "search_inv m s gx gy st \<longrightarrow>
     (\<exists>p st'. astar_loop m gx gy mx st = (Some p, st') \<and> p \<noteq> [] \<and> is_path m p \<and>
                 shortest m s (gx, gy) (length p - 1))" by blast
next
  fix st assume "running mx st" "at_goal gx gy (popped st)"
  with search_goal show "search_inv m s gx gy st \<longrightarrow>
     (\<exists>p st'. astar_loop m gx gy mx st = (Some p, st') \<and> p \<noteq> [] \<and> is_path m p \<and>
                 shortest m s (gx, gy) (length p - 1))" by blast
next
  fix st assume run: "running mx st" and ng: "\<not> at_goal gx gy (popped st)"
    and IH: "search_inv m s gx gy (astar_step m gx gy st) \<longrightarrow>
     (\<exists>p st'. astar_loop m gx gy mx (astar_step m gx gy st) = (Some p, st') \<and> p \<noteq> [] \<and> is_path m p \<and>
                 shortest m s (gx, gy) (length p - 1))"
  show "search_inv m s gx gy st \<longrightarrow>
     (\<exists>p st'. astar_loop m gx gy mx st = (Some p, st') \<and> p \<noteq> [] \<and> is_path m p \<and>
                 shortest m s (gx, gy) (length p - 1))"
  proof
    assume "search_inv m s gx gy st"
    from search_step [OF this run ng] IH
    have "\<exists>p st'. astar_loop m gx gy mx (astar_step m gx gy st) = (Some p, st') \<and> p \<noteq> [] \<and> is_path m p \<and>
                 shortest m s (gx, gy) (length p - 1)" by blast
    then show "\<exists>p st'. astar_loop m gx gy mx st = (Some p, st') \<and> p \<noteq> [] \<and> is_path m p \<and>
                 shortest m s (gx, gy) (length p - 1)"
      by (simp only: astar_loop_step [OF run ng, of m])
  qed
qed

lemma search_init:
  assumes p: "passable m (sx, sy)"
  shows "search_inv m (sx, sy) gx gy
           \<lparr>openSet = [PathNode sx sy 0 (heuristic sx sy gx gy) (0 + heuristic sx sy gx gy) None],
            closedSet = {}, iterations = 0\<rparr>"
proof -
  let ?n = "PathNode sx sy 0 (heuristic sx sy gx gy) (0 + heuristic sx sy gx gy) None"
  have "node_ok m (sx, sy) gx gy ?n"
    using p by (simp add: node_ok_def hGoal_def walk_here is_path_single)
  moreover have "reached [?n] {} (sx, sy) 0" by (simp add: reached_def)
  ultimately have "astar_inv m (sx, sy) gx gy [?n] {}" by (simp add: astar_inv_def)
  then show ?thesis by (simp add: search_inv_def)
qed

text \<open>
  With a budget of at least the number of tiles, \<open>findPath\<close> finds a shortest path
  whenever there is one.
\<close>

lemma findPath_optimal:
  assumes w: "walk m (sx, sy) k (gx, gy)" and mx: "cols m * rows m \<le> mx"
  shows "\<exists>p. findPath sx sy gx gy m mx = Some p \<and> p \<noteq> [] \<and> hd p = (sx, sy) \<and>
             last p = (gx, gy) \<and> is_path m p \<and> shortest m (sx, sy) (gx, gy) (length p - 1)"
proof -
  from walk_passable [OF w] have pg: "passable m (gx, gy)" .
  then have ns: "\<not> isSolid m gx gy" by (simp add: passable_def)
  from walk_goal_passable [OF w] have ps: "passable m (sx, sy)" .
  have "\<exists>p. findPath sx sy gx gy m mx = Some p \<and> p \<noteq> [] \<and> is_path m p \<and>
           shortest m (sx, sy) (gx, gy) (length p - 1)"
  proof (cases "sx = gx \<and> sy = gy")
    case True
    with ns have "findPath sx sy gx gy m mx = Some [(sx, sy)]"
      by (simp add: findPath_def findPath_run_def)
    moreover have "shortest m (sx, sy) (gx, gy) 0"
      using True ps by (simp add: shortest_def walk_here)
    ultimately show ?thesis using ps by (simp add: is_path_single)
  next
    case False
    from astar_loop_optimal_aux [OF w mx] search_init [OF ps, of gx gy]
    obtain p st' where "astar_loop m gx gy mx
        \<lparr>openSet = [PathNode sx sy 0 (heuristic sx sy gx gy) (0 + heuristic sx sy gx gy) None],
         closedSet = {}, iterations = 0\<rparr> = (Some p, st')" "p \<noteq> []" "is_path m p"
      "shortest m (sx, sy) (gx, gy) (length p - 1)"
      by blast
    with ns False show ?thesis by (auto simp: findPath_def findPath_run_def)
  qed
  then obtain p where p: "findPath sx sy gx gy m mx = Some p" "is_path m p"
    "shortest m (sx, sy) (gx, gy) (length p - 1)" by blast
  from findPath_endpoints [OF p(1)] p show ?thesis by simp
qed

lemma astar_loop_sound_aux:
  "search_inv m s gx gy st \<longrightarrow>
     (\<forall>p st'. astar_loop m gx gy mx st = (Some p, st') \<longrightarrow>
        p \<noteq> [] \<and> is_path m p \<and> shortest m s (gx, gy) (length p - 1))"
proof (rule astar_loop_induct [where mx = mx and gx = gx and gy = gy and m = m and
      P = "\<lambda>st. search_inv m s gx gy st \<longrightarrow>
     (\<forall>p st'. astar_loop m gx gy mx st = (Some p, st') \<longrightarrow>
        p \<noteq> [] \<and> is_path m p \<and> shortest m s (gx, gy) (length p - 1))"])
  fix st assume "\<not> running mx st"
  then have "astar_loop m gx gy mx st = (None, st)" by (rule astar_loop_stop)
  then show "search_inv m s gx gy st \<longrightarrow>
     (\<forall>p st'. astar_loop m gx gy mx st = (Some p, st') \<longrightarrow>
        p \<noteq> [] \<and> is_path m p \<and> shortest m s (gx, gy) (length p - 1))" by simp
next
  fix st assume run: "running mx st" and g: "at_goal gx gy (popped st)"
  show "search_inv m s gx gy st \<longrightarrow>
     (\<forall>p st'. astar_loop m gx gy mx st = (Some p, st') \<longrightarrow>
        p \<noteq> [] \<and> is_path m p \<and> shortest m s (gx, gy) (length p - 1))"
  proof (intro impI allI)
    fix p st'
    assume inv: "search_inv m s gx gy st" and r: "astar_loop m gx gy mx st = (Some p, st')"
    from search_goal [OF inv run g] obtain q st'' where
      q: "astar_loop m gx gy mx st = (Some q, st'')" "q \<noteq> []" "is_path m q"
        "shortest m s (gx, gy) (length q - 1)" by blast
    from q(1) r have "q = p" by simp
    with q show "p \<noteq> [] \<and> is_path m p \<and> shortest m s (gx, gy) (length p - 1)" by simp
  qed
next
  fix st assume run: "running mx st" and ng: "\<not> at_goal gx gy (popped st)"
    and IH: "search_inv m s gx gy (astar_step m gx gy st) \<longrightarrow>
     (\<forall>p st'. astar_loop m gx gy mx (astar_step m gx gy st) = (Some p, st') \<longrightarrow>
        p \<noteq> [] \<and> is_path m p \<and> shortest m s (gx, gy) (length p - 1))"
  show "search_inv m s gx gy st \<longrightarrow>
     (\<forall>p st'. astar_loop m gx gy mx st = (Some p, st') \<longrightarrow>
        p \<noteq> [] \<and> is_path m p \<and> shortest m s (gx, gy) (length p - 1))"
  proof
    assume "search_inv m s gx gy st"
    from search_step [OF this run ng] IH
    have "\<forall>p st'. astar_loop m gx gy mx (astar_step m gx gy st) = (Some p, st') \<longrightarrow>
        p \<noteq> [] \<and> is_path m p \<and> shortest m s (gx, gy) (length p - 1)" by blast
    then show "\<forall>p st'. astar_loop m gx gy mx st = (Some p, st') \<longrightarrow>
        p \<noteq> [] \<and> is_path m p \<and> shortest m s (gx, gy) (length p - 1)"
      by (simp only: astar_loop_step [OF run ng, of m])
  qed
qed

text \<open>
  Whatever the budget, a path that \<open>findPath\<close> returns from a passable start is a
  shortest one.
\<close>

lemma findPath_sound:
  assumes ps: "passable m (sx, sy)" and r: "findPath sx sy gx gy m mx = Some p"
  shows "p \<noteq> [] \<and> hd p = (sx, sy) \<and> last p = (gx, gy) \<and> is_path m p \<and>
         shortest m (sx, sy) (gx, gy) (length p - 1)"
proof -
  from r have ns: "\<not> isSolid m gx gy"
    by (auto simp: findPath_def findPath_run_def split: if_splits)
  have "is_path m p \<and> shortest m (sx, sy) (gx, gy) (length p - 1)"
  proof (cases "sx = gx \<and> sy = gy")
    case True
    with ns r have "p = [(sx, sy)]" by (simp add: findPath_def findPath_run_def)
    moreover have "shortest m (sx, sy) (gx, gy) 0"
      using True ps by (simp add: shortest_def walk_here)
    ultimately show ?thesis using ps by (simp add: is_path_single)
  next
    case False
    let ?st = "\<lparr>openSet = [PathNode sx sy 0 (heuristic sx sy gx gy) (0 + heuristic sx sy gx gy) None],
         closedSet = {}, iterations = 0\<rparr>"
    from r ns False have "fst (astar_loop m gx gy mx ?st) = Some p"
      by (simp add: findPath_def findPath_run_def split: prod.splits)
    then obtain st' where "astar_loop m gx gy mx ?st = (Some p, st')"
      by (cases "astar_loop m gx gy mx ?st") simp
    with astar_loop_sound_aux [of m "(sx, sy)" gx gy ?st mx] search_init [OF ps, of gx gy]
    show ?thesis by blast
  qed
  with findPath_endpoints [OF r] show ?thesis by simp
qed

lemma shortest_sym: "shortest m a b d \<Longrightarrow> shortest m b a d"
  unfolding shortest_def using walk_rev by blast

text \<open>An open corridor of \<open>L\<close> tiles in one row.\<close>

definition corridor :: "nat \<Rightarrow> TileMap" where
  "corridor L = \<lparr>cols = int L, rows = 1, tiles = replicate L 0,
                  tileDefs = [0 \<mapsto> \<lparr>def_id = 0, solid = False\<rparr>]\<rparr>"

text \<open>
  The search from \<open>(0, 0)\<close> to \<open>(1001, 0)\<close> in the corridor: after \<open>k\<close> passes the open
  set holds the single node of tile \<open>(k, 0)\<close> and the tiles before it are closed.
\<close>

fun cnode :: "nat \<Rightarrow> PathNode" where
  "cnode 0 = PathNode 0 0 0 1001 1001 None"
| "cnode (Suc k) = PathNode (int (Suc k)) 0 (int (Suc k)) (1001 - int (Suc k)) 1001 (Some (cnode k))"

definition cstate :: "nat \<Rightarrow> search_state" where
  "cstate k = \<lparr>openSet = [cnode k], closedSet = (\<lambda>i. (int i, 0)) ` {..<k}, iterations = int k\<rparr>"

lemma cnode_fields: "node_x (cnode k) = int k" "node_y (cnode k) = 0" "node_g (cnode k) = int k"
  by (cases k; simp)+

lemma corridor_valid: "isValidTile (corridor L) x y \<longleftrightarrow> 0 \<le> x \<and> x < int L \<and> y = 0"
  by (auto simp: isValidTile_def corridor_def)

lemma corridor_open: "0 \<le> x \<Longrightarrow> x < int L \<Longrightarrow> \<not> isSolid (corridor L) x 0"
  by (simp add: isSolid_def getTile_def corridor_def nat_less_iff)

lemma corridor_passable: "0 \<le> x \<Longrightarrow> x < int L \<Longrightarrow> passable (corridor L) (x, 0)"
  by (simp add: passable_def corridor_valid corridor_open)

lemma corridor_walk: "k < L \<Longrightarrow> walk (corridor L) (int k, 0) k (0, 0)"
proof (induction k)
  case 0
  then show ?case using corridor_passable [of 0 L] by (simp add: walk_here)
next
  case (Suc k)
  then have "walk (corridor L) (int k, 0) k (0, 0)" by simp
  moreover have "passable (corridor L) (int (Suc k), 0)"
    using Suc.prems by (intro corridor_passable) simp_all
  moreover have "(int k, 0) \<in> set (neighbors (fst (int (Suc k), 0 :: int)) (snd (int (Suc k), 0 :: int)))"
    by (simp add: neighbors_def)
  ultimately show ?case by (rule walk_extend_goal)
qed

lemma cstate_step:
  assumes "k < 1001"
  shows "astar_step (corridor 1002) 1001 0 (cstate k) = cstate (Suc k)"
proof -
  let ?m = "corridor 1002"
  let ?cl = "insert (int k, 0) ((\<lambda>i. (int i, 0)) ` {..<k})"
  have cl: "?cl = (\<lambda>i. (int i, 0 :: int)) ` {..<Suc k}" by (simp add: lessThan_Suc)
  have pop: "popped (cstate k) = cnode k" by (simp add: popped_def cstate_def)
  have rest: "tl (sort_key node_f (openSet (cstate k))) = []" by (simp add: cstate_def)
  have up: "visitNeighbor ?m 1001 0 ?cl (cnode k) [] (int k, - 1) = []"
    by (simp add: visitNeighbor_def corridor_valid)
  have down: "visitNeighbor ?m 1001 0 ?cl (cnode k) [] (int k, 1) = []"
    by (simp add: visitNeighbor_def corridor_valid)
  have left: "visitNeighbor ?m 1001 0 ?cl (cnode k) [] (int k - 1, 0) = []"
  proof (cases k)
    case 0
    then show ?thesis by (simp add: visitNeighbor_def corridor_valid)
  next
    case (Suc j)
    then have "(int k - 1, 0) = (int j, 0)" by simp
    moreover have "(int j, 0 :: int) \<in> ?cl" using Suc by auto
    ultimately show ?thesis by (simp add: visitNeighbor_def)
  qed
  have notin: "(int k + 1, 0) \<notin> ?cl" by auto
  have right: "visitNeighbor ?m 1001 0 ?cl (cnode k) [] (int k + 1, 0) = [cnode (Suc k)]"
  proof -
    have v: "isValidTile ?m (int k + 1) 0" using assms by (simp add: corridor_valid)
    have o: "\<not> isSolid ?m (int k + 1) 0" using assms by (intro corridor_open) simp_all
    have h: "heuristic (int k + 1) 0 1001 0 = 1001 - int (Suc k)"
      using assms by (simp add: heuristic_def)
    show ?thesis
      using v o notin h by (simp add: visitNeighbor_def cnode_fields add.commute)
  qed
  have "foldl (visitNeighbor ?m 1001 0 ?cl (cnode k)) []
          (neighbors (node_x (cnode k)) (node_y (cnode k))) = [cnode (Suc k)]"
    by (simp add: neighbors_def cnode_fields up down left right)
  then show ?thesis
    unfolding astar_step_def expand_def pop rest
    by (simp add: cstate_def cnode_fields cl)
qed

lemma cstate_loop:
  "k \<le> 1000 \<Longrightarrow> astar_loop (corridor 1002) 1001 0 1000 (cstate k) = (None, cstate 1000)"
proof (induction "1000 - k" arbitrary: k)
  case 0
  then have "k = 1000" by simp
  moreover have "\<not> running 1000 (cstate 1000)" by (simp add: running_def cstate_def)
  ultimately show ?case by (simp add: astar_loop_stop)
next
  case (Suc d)
  then have k: "k < 1000" by simp
  then have run: "running 1000 (cstate k)" by (simp add: running_def cstate_def)
  have ng: "\<not> at_goal 1001 0 (popped (cstate k))"
    using k by (simp add: at_goal_def popped_def cstate_def cnode_fields)
  from k have st: "astar_step (corridor 1002) 1001 0 (cstate k) = cstate (Suc k)"
    by (intro cstate_step) simp
  have "astar_loop (corridor 1002) 1001 0 1000 (cstate (Suc k)) = (None, cstate 1000)"
    using Suc.hyps(2) k by (intro Suc.hyps(1)) simp_all
  with astar_loop_step [OF run ng, of "corridor 1002"] st show ?case by simp
qed

lemma corridor_budget: "findPath 0 0 1001 0 (corridor 1002) 1000 = None"
proof -
  have "\<not> isSolid (corridor 1002) 1001 0" by (intro corridor_open) simp_all
  moreover have "\<lparr>openSet = [PathNode 0 0 0 (heuristic 0 0 1001 0) (0 + heuristic 0 0 1001 0) None],
                 closedSet = {}, iterations = 0\<rparr> = cstate 0"
    by (simp add: cstate_def heuristic_def)
  ultimately show ?thesis
    using cstate_loop [of 0] by (simp add: findPath_def findPath_run_def)
qed

text \<open>
  C2 (as amended). Let the start be a passable tile, and let the flow field have the
  dimensions of the map, \<open>cols * rows\<close> entries and a sentinel with
  \<open>cols * rows \<le> MAX_DISTANCE \<le> 65535\<close>, its stored target differing from the goal when
  \<open>calculateFlowField\<close> is called for the goal. Then, whatever the iteration budget, a
  path that \<open>findPath\<close> returns leads from the start to the goal through 4-adjacent
  passable tiles, and its number of moves (its number of tiles minus one) is the
  flow-field distance of the start. When moreover a path exists and the budget is at
  least the number of tiles of the map, \<open>findPath\<close> does return a path.
\<close>

theorem findPath_matches_flowField:
  assumes start: "passable m (sx, sy)"
    and differs: "target ff \<noteq> (gx, gy)"
    and dims: "ff_cols ff = cols m" "ff_rows ff = rows m"
      "int (length (distances ff)) = cols m * rows m"
    and mx: "cols m * rows m \<le> MAX_DISTANCE ff" "MAX_DISTANCE ff \<le> 65535"
  shows "(\<forall>p. findPath sx sy gx gy m maxIterations = Some p \<longrightarrow>
            hd p = (sx, sy) \<and> last p = (gx, gy) \<and> is_path m p \<and>
            getFlowFieldDistance (calculateFlowField ff (gx, gy) m) sx sy =
              Some (int (length p) - 1)) \<and>
         ((\<exists>n. walk m (gx, gy) n (sx, sy)) \<and> cols m * rows m \<le> maxIterations \<longrightarrow>
            (\<exists>p. findPath sx sy gx gy m maxIterations = Some p))"
proof -
  have A: "hd p = (sx, sy) \<and> last p = (gx, gy) \<and> is_path m p \<and>
            getFlowFieldDistance (calculateFlowField ff (gx, gy) m) sx sy =
              Some (int (length p) - 1)"
    if r: "findPath sx sy gx gy m maxIterations = Some p" for p
  proof -
  from findPath_sound [OF start r] have p: "p \<noteq> []" "hd p = (sx, sy)" "last p = (gx, gy)"
    "is_path m p" "shortest m (sx, sy) (gx, gy) (length p - 1)" by simp_all
  from shortest_sym [OF p(5)] have s: "shortest m (gx, gy) (sx, sy) (length p - 1)" .
  then have w: "walk m (gx, gy) (length p - 1) (sx, sy)" by (simp add: shortest_def)
  from walk_goal_passable [OF w] have pg: "passable m (gx, gy)" .
  from flowField_reachable [OF differs pg dims mx w]
  obtain d where d: "getFlowFieldDistance (calculateFlowField ff (gx, gy) m) sx sy = Some (int d)"
    "shortest m (gx, gy) (sx, sy) d"
    by auto
  from s d(2) have "d = length p - 1" by (rule shortest_unique [symmetric])
  moreover have "int (length p - 1) = int (length p) - 1" using p(1) by (cases p) simp_all
  ultimately show ?thesis using p d(1) by simp
  qed
  have B: "\<exists>p. findPath sx sy gx gy m maxIterations = Some p"
    if a: "(\<exists>n. walk m (gx, gy) n (sx, sy)) \<and> cols m * rows m \<le> maxIterations"
  proof -
    from a obtain n where w: "walk m (gx, gy) n (sx, sy)" by blast
    from findPath_optimal [OF walk_rev [OF w]] a show ?thesis by blast
  qed
  from A B show ?thesis by blast
qed

lemma findPath_01_small: "findPath 0 0 1 0 corridor3 2 = Some [(0, 0), (1, 0)]"
  by (simp add: findPath_def findPath_run_def corridor3_tiles astar_loop.simps expand_def
      neighbors_def visitNeighbor_def heuristic_def reconstructPath_def)

theorem findPath_matches_flowField_witness:
  "passable corridor3 (0, 0) \<and> target field0 \<noteq> (1, 0) \<and>
   ff_cols field0 = cols corridor3 \<and> ff_rows field0 = rows corridor3 \<and>
   int (length (distances field0)) = cols corridor3 * rows corridor3 \<and>
   cols corridor3 * rows corridor3 \<le> MAX_DISTANCE field0 \<and> MAX_DISTANCE field0 \<le> 65535 \<and>
   findPath 0 0 1 0 corridor3 2 = Some [(0, 0), (1, 0)] \<and>
   getFlowFieldDistance (calculateFlowField field0 (1, 0) corridor3) 0 0 = Some 1 \<and>
   cols corridor3 * rows corridor3 \<le> 500 \<and>
   findPath 0 0 1 0 corridor3 500 = Some [(0, 0), (1, 0)]"
proof -
  have w: "walk corridor3 (1, 0) 1 (0, 0)"
    using walk_step [OF walk_here [OF corridor3_passable(2)], of "(0, 0)"]
    by (simp add: neighbors_def corridor3_passable)
  have h0: "passable corridor3 (0, 0)" by (rule corridor3_passable)
  have h1: "target field0 \<noteq> (1, 0)"
    "ff_cols field0 = cols corridor3" "ff_rows field0 = rows corridor3"
    "int (length (distances field0)) = cols corridor3 * rows corridor3"
    "cols corridor3 * rows corridor3 \<le> MAX_DISTANCE field0" "MAX_DISTANCE field0 \<le> 65535"
    by (simp_all add: field0_def corridor3_def)
  note h = h0 h1
  have b: "cols corridor3 * rows corridor3 \<le> 500" by (simp add: corridor3_def)
  from findPath_matches_flowField [OF h, where maxIterations = 2] findPath_01_small
  have d: "getFlowFieldDistance (calculateFlowField field0 (1, 0) corridor3) 0 0 = Some 1"
    by simp
  from findPath_matches_flowField [OF h, where maxIterations = 500] w b
  obtain p where p: "findPath 0 0 1 0 corridor3 500 = Some p" by blast
  from p findPath_01 have "findPath 0 0 1 0 corridor3 500 = Some [(0, 0), (1, 0)]" by simp
  with h b d findPath_01_small show ?thesis by simp
qed

text \<open>
  C2 as stated fails: in an open corridor of 1002 tiles a path from the first tile to the
  last exists, and \<open>findPath\<close> with the default budget of 1000 iterations returns no path.
\<close>

theorem findPath_budget_counterexample:
  "passable (corridor 1002) (0, 0) \<and> passable (corridor 1002) (1001, 0) \<and>
   walk (corridor 1002) (1001, 0) 1001 (0, 0) \<and>
   findPath 0 0 1001 0 (corridor 1002) 1000 = None"
proof -
  have "passable (corridor 1002) (0, 0)" "passable (corridor 1002) (1001, 0)"
    by (intro corridor_passable; simp)+
  moreover have "walk (corridor 1002) (int 1001, 0) 1001 (0, 0)"
    by (intro corridor_walk) simp
  ultimately show ?thesis using corridor_budget by simp
qed

section \<open>Quantisation before transmission\<close>

text \<open>Powers of two, the leading bit and the binary exponent.\<close>

lemma pow2_powr: "pow2 e = 2 powr (of_int e)"
proof (cases "0 \<le> e")
  case True
  then show ?thesis by (simp add: pow2_def powr_realpow [symmetric])
next
  case False
  then have "real_of_int e = - real (nat (- e))" by simp
  then have "(2::real) powr (of_int e) = 1 / 2 ^ nat (- e)"
    by (simp add: powr_minus powr_realpow [symmetric] divide_inverse del: of_nat_nat)
  with False show ?thesis by (simp add: pow2_def)
qed

lemma pow2_pos [simp]: "0 < pow2 e"
  by (simp add: pow2_powr)

lemma pow2_nonneg [simp]: "0 \<le> pow2 e"
  by (rule less_imp_le) simp

lemma pow2_add: "pow2 (a + b) = pow2 a * pow2 b"
  by (simp add: pow2_powr powr_add)

lemma pow2_mono: "a \<le> b \<Longrightarrow> pow2 a \<le> pow2 b"
  by (simp add: pow2_powr)

lemma pow2_nat: "pow2 (int n) = 2 ^ n"
  by (simp add: pow2_def)

lemma pow2_neg: "pow2 (- int n) = 1 / 2 ^ n"
  by (cases n) (simp_all add: pow2_def nat_add_distrib)

lemma ilog2_bounds:
  "1 \<le> n \<Longrightarrow> \<exists>k. ilog2 n = int k \<and> 2 ^ k \<le> n \<and> n < 2 ^ Suc k"
proof (induction n rule: ilog2.induct)
  case (1 n)
  show ?case
  proof (cases "n < 2")
    case True
    with 1 have "n = 1" by simp
    then have "ilog2 n = int 0 \<and> 2 ^ 0 \<le> n \<and> n < 2 ^ Suc 0" by (simp add: ilog2.simps)
    then show ?thesis by blast
  next
    case False
    then have h: "1 \<le> n div 2" by simp
    from 1(1) [OF False h] obtain k
      where k: "ilog2 (n div 2) = int k" and lo: "2 ^ k \<le> n div 2" and hi: "n div 2 < 2 ^ Suc k"
      by blast
    have e: "ilog2 n = int (Suc k)" using False k by (simp add: ilog2.simps)
    from lo have a: "2 ^ Suc k \<le> n" by simp
    from hi have b: "n < 2 ^ Suc (Suc k)" by simp
    from e a b show ?thesis by blast
  qed
qed

lemma exponent_bounds:
  assumes "0 < q"
  shows "pow2 (exponent q) \<le> q \<and> q < pow2 (exponent q + 1)"
proof (cases "1 \<le> q")
  case True
  then have n: "1 \<le> \<lfloor>q\<rfloor>" by simp
  from ilog2_bounds [OF n] obtain k
    where k: "ilog2 \<lfloor>q\<rfloor> = int k" and lo: "2 ^ k \<le> \<lfloor>q\<rfloor>" and hi: "\<lfloor>q\<rfloor> < 2 ^ Suc k"
    by blast
  from lo have "real_of_int (2 ^ k) \<le> of_int \<lfloor>q\<rfloor>" by (simp only: of_int_le_iff)
  then have a: "2 ^ k \<le> q" by (simp add: le_floor_iff)
  from hi have "\<lfloor>q\<rfloor> + 1 \<le> 2 ^ Suc k" by simp
  then have "real_of_int (\<lfloor>q\<rfloor> + 1) \<le> real_of_int (2 ^ Suc k)" by (simp only: of_int_le_iff)
  moreover have "q < real_of_int (\<lfloor>q\<rfloor> + 1)" by linarith
  ultimately have "q < real_of_int (2 ^ Suc k)" by linarith
  then have b: "q < 2 ^ Suc k" by simp
  have e: "exponent q = int k" using True k by (simp add: exponent_def)
  have e1: "exponent q + 1 = int (Suc k)" using e by simp
  have p: "pow2 (exponent q) = 2 ^ k" by (simp only: e pow2_nat)
  have p1: "pow2 (exponent q + 1) = 2 ^ Suc k" by (simp only: e1 pow2_nat)
  show ?thesis using a b by (simp only: p p1)
next
  case False
  then have q1: "q < 1" by simp
  with assms have r: "1 < 1 / q" by simp
  let ?n = "\<lceil>1 / q\<rceil>"
  from r have n: "1 \<le> ?n - 1" by linarith
  from ilog2_bounds [OF n] obtain k
    where k: "ilog2 (?n - 1) = int k" and lo: "2 ^ k \<le> ?n - 1" and hi: "?n - 1 < 2 ^ Suc k"
    by blast
  have e: "exponent q = - int (Suc k)" using False k by (simp add: exponent_def)
  from hi have "?n \<le> 2 ^ Suc k" by simp
  then have "real_of_int ?n \<le> real_of_int (2 ^ Suc k)" by (simp only: of_int_le_iff)
  moreover have "1 / q \<le> real_of_int ?n" by linarith
  ultimately have "1 / q \<le> real_of_int (2 ^ Suc k)" by linarith
  then have "1 / q \<le> 2 ^ Suc k" by simp
  then have a: "1 / 2 ^ Suc k \<le> q" using assms
    by (simp add: field_simps)
  from lo have "real_of_int (2 ^ k) \<le> real_of_int (?n - 1)" by (simp only: of_int_le_iff)
  moreover have "real_of_int (?n - 1) < 1 / q" by linarith
  ultimately have "real_of_int (2 ^ k) < 1 / q" by linarith
  then have "2 ^ k < 1 / q" by simp
  then have b: "q < 1 / 2 ^ k" using assms by (simp add: field_simps)
  have e1: "exponent q + 1 = - int k" using e by simp
  have p: "pow2 (exponent q) = 1 / 2 ^ Suc k" by (simp only: e pow2_neg)
  have p1: "pow2 (exponent q + 1) = 1 / 2 ^ k" by (simp only: e1 pow2_neg)
  show ?thesis using a b by (simp only: p p1)
qed

text \<open>Rounding to an integer moves a number by at most one half.\<close>

lemma roundTiesToEven_error: "\<bar>of_int (roundTiesToEven t) - t\<bar> \<le> 1 / 2"
  unfolding roundTiesToEven_def by (simp; linarith)


lemma pow2_numerals:
  "pow2 (- 52) = 1 / 2 ^ 52" "pow2 1 = 2" "pow2 7 = 128" "pow2 0 = 1"
  by (simp_all add: pow2_def)

text \<open>
  A finite result of \<open>fl\<close> is within half a unit in the last place of the exact value,
  and results of magnitude up to \<open>2 ^ 1023\<close> are finite.
\<close>

lemma fl_rounded:
  assumes "q \<noteq> 0"
  shows "\<exists>r. \<bar>r - q\<bar> \<le> max \<bar>q\<bar> (pow2 (- 1022)) / 2 ^ 53 \<and>
             fl q = (if pow2 1024 \<le> r then PlusInfinity
                     else if r \<le> - pow2 1024 then MinusInfinity else Finite r)"
proof -
  define e where "e = max (exponent \<bar>q\<bar>) (- 1022)"
  define ulp where "ulp = pow2 (e - 52)"
  define n where "n = roundTiesToEven (q / ulp)"
  define r where "r = of_int n * ulp"
  define M where "M = max \<bar>q\<bar> (pow2 (- 1022))"
  have up: "0 < ulp" by (simp add: ulp_def)
  have "\<bar>of_int n - q / ulp\<bar> \<le> 1 / 2" unfolding n_def by (rule roundTiesToEven_error)
  then have "\<bar>of_int n - q / ulp\<bar> * ulp \<le> 1 / 2 * ulp"
    using up by (intro mult_right_mono) simp_all
  moreover have "\<bar>of_int n - q / ulp\<bar> * ulp = \<bar>r - q\<bar>"
  proof -
    have "r - q = (of_int n - q / ulp) * ulp" using up by (simp add: r_def algebra_simps)
    then show ?thesis using up by (simp add: abs_mult)
  qed
  ultimately have d: "\<bar>r - q\<bar> \<le> ulp / 2" by simp
  have "pow2 (exponent \<bar>q\<bar>) \<le> \<bar>q\<bar>" using exponent_bounds [of "\<bar>q\<bar>"] assms by simp
  then have pe: "pow2 e \<le> M" unfolding e_def M_def max_def by auto
  have "ulp = pow2 e * pow2 (- 52)" unfolding ulp_def using pow2_add [of e "- 52"] by simp
  then have u: "ulp = pow2 e / 2 ^ 52" by (simp add: pow2_numerals)
  have "ulp / 2 = pow2 e / 2 ^ 53" unfolding u by simp
  also have "\<dots> \<le> M / 2 ^ 53" using pe by (simp add: divide_right_mono)
  finally have bound: "\<bar>r - q\<bar> \<le> M / 2 ^ 53" using d by simp
  have "fl q = (if pow2 1024 \<le> r then PlusInfinity
                else if r \<le> - pow2 1024 then MinusInfinity else Finite r)"
    using assms by (simp add: fl_def Let_def r_def n_def ulp_def e_def)
  with bound show ?thesis unfolding M_def by blast
qed

lemma fl_finite_error:
  assumes "fl q = Finite r"
  shows "\<bar>r - q\<bar> \<le> max \<bar>q\<bar> (pow2 (- 1022)) / 2 ^ 53"
proof (cases "q = 0")
  case True
  with assms show ?thesis by (simp add: fl_def)
next
  case False
  from fl_rounded [OF False] assms show ?thesis by (auto split: if_splits)
qed

lemma fl_finite:
  assumes q: "\<bar>q\<bar> \<le> pow2 1023"
  shows "\<exists>r. fl q = Finite r"
proof (cases "q = 0")
  case True
  then show ?thesis by (simp add: fl_def)
next
  case False
  from fl_rounded [OF False] obtain r
    where bound: "\<bar>r - q\<bar> \<le> max \<bar>q\<bar> (pow2 (- 1022)) / 2 ^ 53"
      and r: "fl q = (if pow2 1024 \<le> r then PlusInfinity
                     else if r \<le> - pow2 1024 then MinusInfinity else Finite r)" by blast
  define M where "M = max \<bar>q\<bar> (pow2 (- 1022))"
  have "pow2 (- 1022) \<le> pow2 1023" by (rule pow2_mono) simp
  with q have M: "M \<le> pow2 1023" unfolding M_def by simp
  have "M / 2 ^ 53 < pow2 1023"
  proof -
    have "0 < pow2 (- 1022)" by simp
    then have "0 < M" unfolding M_def by linarith
    then have "M / 2 ^ 53 < M" by simp
    with M show ?thesis by simp
  qed
  with bound q have "\<bar>r\<bar> < pow2 1023 + pow2 1023" unfolding M_def by linarith
  moreover have "pow2 1024 = pow2 1023 * pow2 1" using pow2_add [of 1023 1] by simp
  ultimately have "\<bar>r\<bar> < pow2 1024" by (simp add: pow2_numerals)
  then have "\<not> pow2 1024 \<le> r" "\<not> r \<le> - pow2 1024" by linarith+
  with r show ?thesis by simp
qed

text \<open>
  \<open>Math.round(x * c) / c\<close> for a literal \<open>c \<ge> 1\<close>: the two roundings and \<open>Math.round\<close>
  when the result is finite, the error of a finite result, and the inputs whose result
  is finite.
\<close>

lemma quantise_result:
  assumes "ddiv (Math_round (dmul (Finite x) (Finite c))) (Finite c) = Finite z" and "c \<noteq> 0"
  shows "\<exists>y. fl (x * c) = Finite y \<and> fl (of_int \<lfloor>y + 1 / 2\<rfloor> / c) = Finite z"
  using assms by (cases "fl (x * c)") (simp_all split: if_splits)

lemma quantise_bound:
  assumes c: "1 \<le> c"
    and res: "ddiv (Math_round (dmul (Finite x) (Finite c))) (Finite c) = Finite z"
  shows "\<bar>z - x\<bar> \<le> 1 / (2 * c) + (\<bar>x\<bar> + 1) / 2 ^ 51"
proof -
  define t where "t = pow2 (- 1022)"
  define u :: real where "u = 1 / 2 ^ 53"
  define a where "a = \<bar>x\<bar>"
  define A where "A = \<bar>x * c\<bar>"
  have t: "0 < t" "t \<le> 1"
    using pow2_mono [of "- 1022" 0] by (simp_all add: t_def pow2_numerals)
  have u: "0 < u" "u \<le> 1" by (simp_all add: u_def)
  have c0: "0 < c" using c by simp
  have a0: "0 \<le> a" by (simp add: a_def)
  have A0: "0 \<le> A" by (simp add: A_def)
  have xa: "A = a * c" using c by (simp add: abs_mult A_def a_def)
  from quantise_result [OF res] c0 obtain y
    where y: "fl (x * c) = Finite y" and z: "fl (of_int \<lfloor>y + 1 / 2\<rfloor> / c) = Finite z" by auto
  define r :: real where "r = of_int \<lfloor>y + 1 / 2\<rfloor>"
  define D where "D = \<bar>y - x * c\<bar>"
  from fl_finite_error [OF y] have ey: "D \<le> max A t * u"
    by (simp add: t_def u_def A_def D_def)
  from fl_finite_error [OF z] have ez: "\<bar>z - r / c\<bar> \<le> max \<bar>r / c\<bar> t * u"
    by (simp add: t_def u_def r_def)
  have er: "\<bar>r - y\<bar> \<le> 1 / 2" unfolding r_def by linarith
  have m1: "max A t \<le> A + 1" using t A0 by simp
  have "max A t * u \<le> (A + 1) * u"
    using m1 u by (intro mult_right_mono) simp_all
  with ey have ey': "D \<le> (A + 1) * u" by linarith
  have e1: "\<bar>y / c - x\<bar> \<le> (a + 1) * u"
  proof -
    have "y / c - x = (y - x * c) / c" using c0 by (simp add: field_simps)
    then have "\<bar>y / c - x\<bar> = D / c" using c0 by (simp add: D_def)
    also have "\<dots> \<le> ((a * c + 1) * u) / c"
      using ey' c0 by (simp add: xa divide_right_mono)
    also have "\<dots> = (a + 1 / c) * u" using c0 by (simp add: field_simps)
    also have "\<dots> \<le> (a + 1) * u"
      using u c by (intro mult_right_mono add_left_mono) (simp_all add: field_simps)
    finally show ?thesis .
  qed
  have e2: "\<bar>r / c - y / c\<bar> \<le> 1 / (2 * c)"
  proof -
    have "r / c - y / c = (r - y) / c" by (simp add: diff_divide_distrib)
    then have "\<bar>r / c - y / c\<bar> = \<bar>r - y\<bar> / c" using c0 by simp
    also have "\<dots> \<le> (1 / 2) / c" using er c0 by (intro divide_right_mono) simp_all
    finally show ?thesis by simp
  qed
  define h where "h = 1 / (2 * c)"
  have h: "h \<le> 1 / 2" unfolding h_def using c by (simp add: field_simps)
  have u1: "(a + 1) * u \<le> a + 1"
  proof -
    have "(a + 1) * u \<le> (a + 1) * 1" using u a0 by (intro mult_left_mono) simp_all
    then show ?thesis by simp
  qed
  define rq where "rq = r / c"
  define yq where "yq = y / c"
  have "\<bar>rq\<bar> \<le> \<bar>x\<bar> + \<bar>yq - x\<bar> + \<bar>rq - yq\<bar>" by linarith
  then have rcb: "\<bar>rq\<bar> \<le> 2 * a + 3 / 2"
    using e1 e2 h u1 unfolding rq_def yq_def h_def a_def by linarith
  have "max \<bar>rq\<bar> t \<le> 2 * a + 5 / 2" using rcb t a0 by simp
  then have "max \<bar>rq\<bar> t * u \<le> (2 * a + 5 / 2) * u"
    using u by (intro mult_right_mono) simp_all
  with ez have e3: "\<bar>z - rq\<bar> \<le> (2 * a + 5 / 2) * u" unfolding rq_def by linarith
  have "\<bar>z - x\<bar> \<le> \<bar>z - rq\<bar> + \<bar>rq - yq\<bar> + \<bar>yq - x\<bar>" by linarith
  then have "\<bar>z - x\<bar> \<le> h + ((a + 1) * u + (2 * a + 5 / 2) * u)"
    using e1 e2 e3 unfolding rq_def yq_def h_def by linarith
  also have "(a + 1) * u + (2 * a + 5 / 2) * u \<le> (a + 1) * (4 * u)"
  proof -
    have "(a + 1) * u + (2 * a + 5 / 2) * u = (3 * a + 7 / 2) * u"
      by (simp add: algebra_simps)
    also have "\<dots> \<le> (4 * a + 4) * u" using u a0 by (intro mult_right_mono) simp_all
    finally show ?thesis by (simp add: algebra_simps)
  qed
  also have "(a + 1) * (4 * u) = (a + 1) / 2 ^ 51" by (simp add: u_def)
  finally show ?thesis by (simp add: h_def a_def)
qed

lemma quantise_finite:
  assumes c: "1 \<le> c" "c \<le> 100" and x: "\<bar>x\<bar> \<le> pow2 1016"
  shows "\<exists>z. ddiv (Math_round (dmul (Finite x) (Finite c))) (Finite c) = Finite z"
proof -
  define P where "P = pow2 1016"
  define Q where "Q = pow2 1023"
  define A where "A = \<bar>x * c\<bar>"
  define t where "t = pow2 (- 1022)"
  have t: "0 < t" "t \<le> 1"
    using pow2_mono [of "- 1022" 0] by (simp_all add: t_def pow2_numerals)
  have P: "1 \<le> P" "128 * P = Q"
    using pow2_add [of 1016 7] pow2_mono [of 0 1016]
    by (simp_all add: pow2_numerals P_def Q_def)
  have c0: "0 < c" using c by simp
  have A0: "0 \<le> A" by (simp add: A_def)
  have "A = \<bar>x\<bar> * c" using c by (simp add: abs_mult A_def)
  also have "\<dots> \<le> P * 100" using x c by (intro mult_mono) (simp_all add: P_def)
  finally have xc: "A \<le> P * 100" .
  then have "A \<le> Q" using P by linarith
  then have "\<bar>x * c\<bar> \<le> pow2 1023" by (simp add: A_def Q_def)
  from fl_finite [OF this] obtain y where y: "fl (x * c) = Finite y" by blast
  define D where "D = \<bar>y - x * c\<bar>"
  define u :: real where "u = 1 / 2 ^ 53"
  have u: "0 < u" "u \<le> 1 / 128" by (simp_all add: u_def)
  from fl_finite_error [OF y] have ey: "D \<le> max A t * u"
    by (simp add: D_def A_def t_def u_def)
  have m1: "max A t \<le> A + 1" using t A0 by simp
  have "max A t * u \<le> (A + 1) * u"
    using m1 u by (intro mult_right_mono) simp_all
  also have "(A + 1) * u \<le> (A + 1) * (1 / 128)"
    using u A0 by (intro mult_left_mono) simp_all
  finally have "max A t * u \<le> A / 128 + 1 / 128" by (simp add: add_divide_distrib)
  with ey have D: "D \<le> A / 128 + 1 / 128" by linarith
  define r :: real where "r = of_int \<lfloor>y + 1 / 2\<rfloor>"
  have er: "\<bar>r - y\<bar> \<le> 1 / 2" unfolding r_def by linarith
  have rb: "\<bar>r\<bar> \<le> Q"
  proof -
    have "\<bar>y\<bar> \<le> A + D" unfolding A_def D_def by simp
    then have "\<bar>y\<bar> \<le> A + (A / 128 + 1 / 128)" using D by linarith
    moreover have "\<bar>r\<bar> \<le> \<bar>y\<bar> + \<bar>r - y\<bar>" by simp
    ultimately have "\<bar>r\<bar> \<le> A + (A / 128 + 1 / 128) + 1 / 2" using er by linarith
    then show ?thesis using xc P by linarith
  qed
  have "\<bar>r / c\<bar> \<le> \<bar>r\<bar>"
  proof -
    have "\<bar>r / c\<bar> = \<bar>r\<bar> / c" using c0 by simp
    also have "\<dots> \<le> \<bar>r\<bar> / 1" using c by (intro divide_left_mono) simp_all
    finally show ?thesis by simp
  qed
  with rb have "\<bar>r / c\<bar> \<le> pow2 1023" unfolding Q_def by linarith
  from fl_finite [OF this] obtain z where z: "fl (r / c) = Finite z" by blast
  from y z c0 show ?thesis by (simp add: r_def)
qed


text \<open>
  C8. Quantisation moves a coordinate by at most half a step plus the rounding error of
  the two floating-point operations: for every finite number \<open>x\<close>, when
  \<open>Math.round(x * 10) / 10\<close> is a finite number it is within
  \<open>1 / 20 + (\<bar>x\<bar> + 1) / 2 ^ 51\<close> of \<open>x\<close>, and when \<open>Math.round(x * 100) / 100\<close> is a finite
  number it is within \<open>1 / 200 + (\<bar>x\<bar> + 1) / 2 ^ 51\<close> of \<open>x\<close>; both are finite for every
  \<open>x\<close> of magnitude at most \<open>2 ^ 1016\<close>.
\<close>

theorem quantisation_error:
  "(\<forall>z. round1 (Finite x) = Finite z \<longrightarrow> \<bar>z - x\<bar> \<le> 1 / 20 + (\<bar>x\<bar> + 1) / 2 ^ 51) \<and>
   (\<forall>z. round2 (Finite x) = Finite z \<longrightarrow> \<bar>z - x\<bar> \<le> 1 / 200 + (\<bar>x\<bar> + 1) / 2 ^ 51) \<and>
   (\<bar>x\<bar> \<le> 2 ^ 1016 \<longrightarrow>
      (\<exists>z. round1 (Finite x) = Finite z) \<and> (\<exists>z. round2 (Finite x) = Finite z))"
proof -
  have p: "pow2 1016 = 2 ^ 1016" using pow2_nat [of 1016] by simp
  have a: "\<bar>z - x\<bar> \<le> 1 / 20 + (\<bar>x\<bar> + 1) / 2 ^ 51" if "round1 (Finite x) = Finite z" for z
    using quantise_bound [of 10 x z] that by (simp add: round1_def)
  have b: "\<bar>z - x\<bar> \<le> 1 / 200 + (\<bar>x\<bar> + 1) / 2 ^ 51" if "round2 (Finite x) = Finite z" for z
    using quantise_bound [of 100 x z] that by (simp add: round2_def)
  have c: "(\<exists>z. round1 (Finite x) = Finite z) \<and> (\<exists>z. round2 (Finite x) = Finite z)"
    if "\<bar>x\<bar> \<le> 2 ^ 1016"
  proof -
    from that have x: "\<bar>x\<bar> \<le> pow2 1016" by (simp only: p)
    from quantise_finite [of 10 x, OF _ _ x] quantise_finite [of 100 x, OF _ _ x]
    show ?thesis by (simp add: round1_def round2_def)
  qed
  from a b c show ?thesis by blast
qed

theorem quantisation_error_witness:
  "round1 (Finite (5 / 4)) = Finite (5854679515581645 / 2 ^ 52) \<and>
   \<bar>5854679515581645 / 2 ^ 52 - 5 / 4\<bar> \<le> (1 :: real) / 20 + (\<bar>5 / 4\<bar> + 1) / 2 ^ 51 \<and>
   round2 (Finite (5 / 4)) = Finite (5 / 4) \<and>
   \<bar>5 / 4 - 5 / 4\<bar> \<le> (1 :: real) / 200 + (\<bar>5 / 4\<bar> + 1) / 2 ^ 51 \<and>
   \<bar>5 / 4\<bar> \<le> (2 :: real) ^ 1016"
  using quantisation_error [of "5 / 4"]
  by (simp add: fl_def exponent_def ilog2.simps pow2_def roundTiesToEven_def Let_def
      round1_def round2_def)

text \<open>
  Half a step alone is exceeded. The double written \<open>0.35\<close> is \<open>6305039478318694 / 2 ^ 54\<close>,
  just below \<open>35 / 100\<close>; its product with \<open>10\<close> rounds to \<open>3.5\<close>, which \<open>Math.round\<close>
  takes to \<open>4\<close>, and the position sent is the double \<open>0.4\<close>, more than \<open>1 / 20\<close> away.
  Likewise the velocity \<open>0.015\<close> is sent as \<open>0.02\<close>, more than \<open>1 / 200\<close> away; and \<open>10 ^ 21\<close>
  is sent as a number \<open>131072\<close> below it.
\<close>

theorem quantisation_counterexample:
  "fl (35 / 100) = Finite (6305039478318694 / 2 ^ 54) \<and>
   round1 (Finite (6305039478318694 / 2 ^ 54)) = Finite (7205759403792794 / 2 ^ 54) \<and>
   (1 :: real) / 20 < \<bar>7205759403792794 / 2 ^ 54 - 6305039478318694 / 2 ^ 54\<bar> \<and>
   fl (15 / 1000) = Finite (1080863910568919 / 2 ^ 56) \<and>
   round2 (Finite (1080863910568919 / 2 ^ 56)) = Finite (5764607523034235 / 2 ^ 58) \<and>
   (1 :: real) / 200 < \<bar>5764607523034235 / 2 ^ 58 - 1080863910568919 / 2 ^ 56\<bar> \<and>
   fl (10 ^ 21) = Finite (10 ^ 21) \<and>
   round2 (Finite (10 ^ 21)) = Finite (10 ^ 21 - 131072)"
  by (simp add: fl_def exponent_def ilog2.simps pow2_def roundTiesToEven_def Let_def
      round1_def round2_def)

end
